theory Spec2Isabelle
  imports Main "HOL-Library.Word" "HOL-Library.Signed_Division" "HOL-Library.Sublist"
begin

unbundle bit_operations_syntax

section \<open>Data model of xcd.c\<close>

text \<open>
  \<^verbatim>\<open>typedef unsigned char byte;\<close>
  Everything written to standard output is a byte; the two terminal control sequences
  obtained from terminfo (\<^verbatim>\<open>tiparm(setaf, c)\<close> and \<^verbatim>\<open>sgr0\<close>) depend on
  the terminal and are kept symbolic.
\<close>

type_synonym byte = "8 word"

datatype outitem =
    Out byte      \<comment> \<open>one byte written with putchar, fputs or printf\<close>
  | Setaf byte    \<comment> \<open>the sequence \<^verbatim>\<open>tiparm(setaf, c)\<close> selecting foreground colour c\<close>
  | Sgr0          \<comment> \<open>the sequence \<^verbatim>\<open>sgr0\<close> resetting the attributes\<close>

definition str :: "string \<Rightarrow> outitem list" where
  "str s = map (\<lambda>c. Out (of_char c)) s"

text \<open>The colour index palette, \<^verbatim>\<open>static byte const colorset[]\<close>, 256 entries.\<close>

definition colorset :: "byte list" where
  "colorset = [
     8, 11, 53, 202, 87, 9, 41, 217, 32, 222, 57, 214, 126, 191, 88, 148,
     94, 219, 22, 228, 121, 4, 3, 23, 30, 179, 14, 13, 195, 12, 225, 123,
     230, 27, 159, 10, 207, 165, 50, 227, 235, 200, 45, 82, 213, 197, 47, 255,
     20, 190, 93, 229, 236, 33, 220, 129, 49, 160, 39, 198, 118, 199, 48, 208,
     63, 154, 81, 52, 171, 194, 17, 224, 40, 206, 86, 237, 189, 203, 83, 19,
     254, 1, 221, 177, 2, 117, 18, 158, 212, 124, 183, 28, 122, 204, 34, 153,
     193, 69, 205, 84, 238, 218, 192, 99, 119, 135, 209, 75, 223, 85, 215, 56,
     155, 164, 58, 44, 161, 184, 26, 76, 105, 166, 120, 141, 210, 239, 111, 156,
     211, 147, 216, 157, 92, 42, 162, 38, 112, 163, 43, 172, 128, 29, 253, 54,
     178, 24, 55, 64, 188, 89, 35, 25, 130, 80, 125, 70, 170, 185, 240, 252,
     62, 77, 5, 167, 152, 6, 182, 37, 187, 91, 142, 116, 136, 176, 31, 186,
     90, 106, 127, 36, 100, 251, 59, 74, 134, 79, 149, 169, 241, 68, 113, 168,
     78, 98, 173, 7, 242, 146, 61, 151, 71, 131, 181, 60, 110, 150, 175, 65,
     115, 140, 180, 95, 104, 114, 174, 250, 243, 73, 133, 143, 67, 107, 132, 72,
     97, 137, 66, 96, 101, 249, 145, 248, 109, 139, 144, 247, 103, 108, 138, 246,
     245, 102, 245, 102, 245, 102, 245, 102, 245, 102, 245, 102, 245, 102, 245, 102]"

text \<open>
  The user-controlled settings, globals of the C program. The option parser (getn) yields
  non-negative values only, so the sizes are naturals; \<^verbatim>\<open>hexwidth\<close> and the
  padding counter derived from it are C ints.
\<close>

record settings =
  autoskip :: bool
  linesize :: nat
  groupsize :: nat
  hexoutput :: bool
  colorize :: bool
  useunicode :: bool
  hexwidth :: int

text \<open>
  \<^verbatim>\<open>static byte palette[256]; static int nextcolorfromset = 0;\<close>
  The palette is indexed by a byte, so it is a total function on bytes; zero means
  unassigned.
\<close>

record colors =
  palette :: "byte \<Rightarrow> byte"
  nextcolorfromset :: nat

definition colors0 :: colors where
  "colors0 = \<lparr> palette = (\<lambda>_. 0), nextcolorfromset = 0 \<rparr>"

section \<open>Option post-processing\<close>

text \<open>
  C int arithmetic on 32 bits. Signed overflow is undefined in C; the model takes the two's
  complement result (\<open>int32\<close>), which is what the usual compilers compute here. C's
  division truncates towards zero (\<open>sdiv\<close>). The only sum that can overflow is
  \<^verbatim>\<open>linesize + groupsize\<close>, the group size being bounded by INT_MAX only.
\<close>

definition int32 :: "int \<Rightarrow> int" where
  "int32 v = signed_take_bit 31 v"

text \<open>
  \<^verbatim>\<open>hexwidth = 2 * linesize + (linesize + groupsize - 1) / groupsize;\<close>
\<close>

definition calc_hexwidth :: "nat \<Rightarrow> nat \<Rightarrow> int" where
  "calc_hexwidth ls gs =
     int32 (int32 (2 * int ls) + int32 (int32 (int32 (int ls + int gs) - 1) sdiv int gs))"

text \<open>
  The tail of \<^verbatim>\<open>parsecommandline\<close>, after the getopt loop has stored the option
  values: raw mode switches autoskip off and dies without colour (\<open>None\<close>); zero sizes
  get their defaults; the width of the hex column is computed.
\<close>

definition parsecommandline_finish :: "settings \<Rightarrow> settings option" where
  "parsecommandline_finish cfg =
     (if \<not> hexoutput cfg \<and> \<not> colorize cfg then None
      else
        let cfg1 = (if \<not> hexoutput cfg then cfg\<lparr>autoskip := False\<rparr> else cfg);
            cfg2 = (if linesize cfg1 = 0 then cfg1\<lparr>linesize := 16\<rparr> else cfg1);
            cfg3 = (if groupsize cfg2 = 0 then cfg2\<lparr>groupsize := linesize cfg2\<rparr> else cfg2)
        in Some (cfg3\<lparr>hexwidth := calc_hexwidth (linesize cfg3) (groupsize cfg3)\<rparr>))"

section \<open>Glyph resolver\<close>

text \<open>
  \<^verbatim>\<open>isprint\<close> and \<^verbatim>\<open>isgraph\<close> in the "C" locale (the program never calls
  setlocale).
\<close>

definition isprint :: "byte \<Rightarrow> bool" where
  "isprint ch = (32 \<le> ch \<and> ch \<le> 126)"

definition isgraph :: "byte \<Rightarrow> bool" where
  "isgraph ch = (33 \<le> ch \<and> ch \<le> 126)"

text \<open>
  \<^verbatim>\<open>getbyterepresentation\<close>: the bytes of the NUL-terminated string left in
  \<^verbatim>\<open>buf\<close>, without the terminator.
\<close>

definition getbyterepresentation :: "bool \<Rightarrow> byte \<Rightarrow> byte list" where
  "getbyterepresentation unicode ch =
     (if unicode then
        (if ch < 32 then [0xE2, 0x90, 0x80 OR ch]
         else if ch = 32 then [0xE2, 0x90, 0xA0]
         else if ch < 127 then [ch]
         else if ch = 127 then [0xE2, 0x90, 0xA1]
         else if ch < 160 then [0xE2, 0x90, 0xA6]
         else if ch = 160 then [0xE2, 0x90, 0xA3]
         else [0xC0 OR drop_bit 6 ch, 0x80 OR (ch AND 0x3F)])
      else [if isprint ch then ch else of_char CHR ''.''])"

text \<open>
  The two-byte form of UTF-8 as the standard defines it, for code points from U+0080 to
  U+07FF: \<^verbatim>\<open>110xxxxx 10xxxxxx\<close> carrying the upper five and the lower six bits of
  the code point. It is the reference that the Latin-1 branch of the resolver is compared
  with.
\<close>

definition utf8_two_bytes :: "nat \<Rightarrow> byte list" where
  "utf8_two_bytes cp = [of_nat (192 + cp div 64), of_nat (128 + cp mod 64)]"

section \<open>Line renderers\<close>

definition hexdigit :: "nat \<Rightarrow> byte" where
  "hexdigit d = (if d < 10 then of_nat (48 + d) else of_nat (55 + d))"

text \<open>\<^verbatim>\<open>%02X\<close> of a byte.\<close>

definition hex2 :: "byte \<Rightarrow> outitem list" where
  "hex2 ch = [Out (hexdigit (unat ch div 16)), Out (hexdigit (unat ch mod 16))]"

text \<open>
  \<^verbatim>\<open>%08X\<close> of the int \<^verbatim>\<open>pos\<close>: printf reads it as an unsigned 32-bit
  value, which never takes more than eight digits. The position is only ever added to and
  subtracted from, so it is carried as a mathematical integer and reduced modulo
  \<open>2 ^ 32\<close> here, where it is printed: the wrap-around of the C int, written out at
  the one place where it shows.
\<close>

definition hex8 :: "int \<Rightarrow> outitem list" where
  "hex8 pos = (let v = nat (pos mod 2 ^ 32)
               in map (\<lambda>k. Out (hexdigit ((v div 16 ^ k) mod 16))) [7, 6, 5, 4, 3, 2, 1, 0])"

text \<open>
  \<^verbatim>\<open>printf("%*s", x, "")\<close>: \<open>x\<close> spaces; a negative width means left
  justification in a field of \<open>-x\<close>, which for the empty string is \<open>-x\<close> spaces.
\<close>

definition pad :: "int \<Rightarrow> outitem list" where
  "pad x = replicate (nat \<bar>x\<bar>) (Out 32)"

text \<open>
  The statement that occurs three times in the renderers,
  \<^verbatim>\<open>if (!palette[ch]) palette[ch] = colorset[nextcolorfromset++];\<close>
  A read past the end of \<^verbatim>\<open>colorset\<close> is undefined behaviour in C: the model
  faults with \<open>None\<close>.
\<close>

definition assigncolor :: "byte \<Rightarrow> colors \<Rightarrow> colors option" where
  "assigncolor ch c =
     (if palette c ch = 0 then
        (if nextcolorfromset c < length colorset
         then Some (c\<lparr> palette := (palette c)(ch := colorset ! nextcolorfromset c),
                       nextcolorfromset := nextcolorfromset c + 1 \<rparr>)
         else None)
      else Some c)"

text \<open>
  What terminfo tells of the terminal named by TERM: whether \<^verbatim>\<open>setupterm\<close>
  succeeds, whether the capabilities sgr0 and setaf exist (what they send is what \<open>Sgr0\<close>
  and \<open>Setaf\<close> stand for), the number of colours, and the three initialisation strings
  (\<open>None\<close>: \<^verbatim>\<open>tigetstr\<close> returns a null pointer).
\<close>

record terminal =
  setupterm_ok :: bool
  sgr0_cap :: bool
  setaf_cap :: bool
  colors_cap :: int
  is1 :: "byte list option"
  is2 :: "byte list option"
  is3 :: "byte list option"

text \<open>\<^verbatim>\<open>if (seq) fputs(seq, stdout);\<close>\<close>

definition putseq :: "byte list option \<Rightarrow> outitem list" where
  "putseq seq = (case seq of None \<Rightarrow> [] | Some bs \<Rightarrow> map Out bs)"

text \<open>
  \<^verbatim>\<open>initoutput\<close>: without colour nothing happens; with colour the terminal must
  be found and offer sgr0, setaf and 256 colours, else the program exits (\<open>None\<close>);
  then the initialisation strings are written to standard output and byte zero gets the
  first colour of the set.
\<close>

definition initoutput :: "settings \<Rightarrow> terminal \<Rightarrow> colors \<Rightarrow> (outitem list \<times> colors) option" where
  "initoutput cfg ti c =
     (if \<not> colorize cfg then Some ([], c)
      else if \<not> setupterm_ok ti then None
      else if \<not> sgr0_cap ti \<or> \<not> setaf_cap ti then None
      else if colors_cap ti < 256 then None
      else Some (putseq (is1 ti) @ putseq (is2 ti) @ putseq (is3 ti),
                 c\<lparr> palette := (palette c)(0 := colorset ! 0), nextcolorfromset := 1 \<rparr>))"

text \<open>
  \<^verbatim>\<open>renderbytescolored\<close>: the loop over \<^verbatim>\<open>buf[0..count)\<close>, then the reset.
\<close>

fun renderbytes_loop :: "settings \<Rightarrow> byte list \<Rightarrow> colors \<Rightarrow> (outitem list \<times> colors) option" where
  "renderbytes_loop cfg [] c = Some ([], c)"
| "renderbytes_loop cfg (ch # rest) c =
     (if \<not> isgraph ch then
        (case renderbytes_loop cfg rest c of
           None \<Rightarrow> None
         | Some (out, c') \<Rightarrow> Some (Out ch # out, c'))
      else
        (case assigncolor ch c of
           None \<Rightarrow> None
         | Some c1 \<Rightarrow>
            (case renderbytes_loop cfg rest c1 of
               None \<Rightarrow> None
             | Some (out, c') \<Rightarrow>
                 Some (Setaf (palette c1 ch) # map Out (getbyterepresentation (useunicode cfg) ch) @ out,
                       c'))))"

definition renderbytescolored :: "settings \<Rightarrow> byte list \<Rightarrow> colors \<Rightarrow> (outitem list \<times> colors) option" where
  "renderbytescolored cfg buf c =
     (case renderbytes_loop cfg buf c of
        None \<Rightarrow> None
      | Some (out, c') \<Rightarrow> Some (out @ [Sgr0], c'))"

text \<open>
  \<^verbatim>\<open>renderlineuncolored\<close>. The first loop prints the hex digits, a space before
  every group, and counts the spaces off the padding \<open>x\<close>; \<open>i\<close> is the loop index.
\<close>

fun hexloop_uncolored :: "settings \<Rightarrow> nat \<Rightarrow> byte list \<Rightarrow> int \<Rightarrow> outitem list \<times> int" where
  "hexloop_uncolored cfg i [] x = ([], x)"
| "hexloop_uncolored cfg i (ch # rest) x =
     (let (sp, x1) = (if i mod groupsize cfg = 0 then ([Out 32], x - 1) else ([], x));
          (out, x2) = hexloop_uncolored cfg (i + 1) rest x1
      in (sp @ hex2 ch @ out, x2))"

definition renderlineuncolored :: "settings \<Rightarrow> byte list \<Rightarrow> int \<Rightarrow> outitem list" where
  "renderlineuncolored cfg buf pos =
     (let count = length buf;
          (hexpart, x) = hexloop_uncolored cfg 0 buf (hexwidth cfg - 2 * int count)
      in hex8 pos @ str '':'' @ hexpart @ pad x @ str ''  ''
         @ concat (map (\<lambda>ch. map Out (getbyterepresentation (useunicode cfg) ch)) buf)
         @ [Out 10])"

text \<open>\<^verbatim>\<open>renderlinecolored\<close>: the same two loops, each byte in its colour.\<close>

fun hexloop_colored :: "settings \<Rightarrow> nat \<Rightarrow> byte list \<Rightarrow> int \<Rightarrow> colors
                        \<Rightarrow> (outitem list \<times> int \<times> colors) option" where
  "hexloop_colored cfg i [] x c = Some ([], x, c)"
| "hexloop_colored cfg i (ch # rest) x c =
     (let (sp, x1) = (if i mod groupsize cfg = 0 then ([Out 32], x - 1) else ([], x))
      in case assigncolor ch c of
           None \<Rightarrow> None
         | Some c1 \<Rightarrow>
            (case hexloop_colored cfg (i + 1) rest x1 c1 of
               None \<Rightarrow> None
             | Some (out, x2, c') \<Rightarrow> Some (sp @ Setaf (palette c1 ch) # hex2 ch @ out, x2, c')))"

fun glyphloop_colored :: "settings \<Rightarrow> byte list \<Rightarrow> colors \<Rightarrow> (outitem list \<times> colors) option" where
  "glyphloop_colored cfg [] c = Some ([], c)"
| "glyphloop_colored cfg (ch # rest) c =
     (case assigncolor ch c of
        None \<Rightarrow> None
      | Some c1 \<Rightarrow>
         (case glyphloop_colored cfg rest c1 of
            None \<Rightarrow> None
          | Some (out, c') \<Rightarrow>
              Some (Setaf (palette c1 ch) # map Out (getbyterepresentation (useunicode cfg) ch) @ out,
                    c')))"

definition renderlinecolored :: "settings \<Rightarrow> byte list \<Rightarrow> int \<Rightarrow> colors
                                  \<Rightarrow> (outitem list \<times> colors) option" where
  "renderlinecolored cfg buf pos c =
     (let count = length buf
      in case hexloop_colored cfg 0 buf (hexwidth cfg - 2 * int count) c of
           None \<Rightarrow> None
         | Some (hexpart, x, c1) \<Rightarrow>
            (case glyphloop_colored cfg buf c1 of
               None \<Rightarrow> None
             | Some (glyphs, c2) \<Rightarrow>
                 Some (Sgr0 # hex8 pos @ str '':'' @ hexpart @ Sgr0 # pad x @ str ''  ''
                       @ glyphs @ [Sgr0, Out 10], c2)))"

text \<open>
  \<^verbatim>\<open>dumpline(buf, count, pos)\<close>: the renderers see the first \<open>count\<close> bytes of the
  buffer.
\<close>

definition dumpline :: "settings \<Rightarrow> byte list \<Rightarrow> nat \<Rightarrow> int \<Rightarrow> colors
                         \<Rightarrow> (outitem list \<times> colors) option" where
  "dumpline cfg buf count pos c =
     (if count \<noteq> 0 then
        (if \<not> hexoutput cfg then renderbytescolored cfg (take count buf) c
         else if colorize cfg then renderlinecolored cfg (take count buf) pos c
         else Some (renderlineuncolored cfg (take count buf) pos, c))
      else Some ([], c))"

section \<open>Settings the option parser can produce\<close>

text \<open>The initial values of the globals.\<close>

definition default_settings :: settings where
  "default_settings = \<lparr> autoskip = False, linesize = 16, groupsize = 2, hexoutput = True,
                         colorize = True, useunicode = True, hexwidth = 0 \<rparr>"

text \<open>
  What \<^verbatim>\<open>parsecommandline\<close> guarantees when it returns: getn bounds the line size by
  255 and every number by INT_MAX, zero sizes have been replaced, and the hex width has been
  computed from the two sizes.
\<close>

definition valid_settings :: "settings \<Rightarrow> bool" where
  "valid_settings cfg =
     (1 \<le> linesize cfg \<and> linesize cfg \<le> 255 \<and> 1 \<le> groupsize cfg \<and> groupsize cfg < 2 ^ 31
      \<and> hexwidth cfg = calc_hexwidth (linesize cfg) (groupsize cfg))"

text \<open>
  The number of screen columns a piece of output takes when every byte written is a
  one-column character (true of the position label and the hex column); the control
  sequences take none.
\<close>

fun columns :: "outitem list \<Rightarrow> nat" where
  "columns [] = 0"
| "columns (Out b # out) = Suc (columns out)"
| "columns (Setaf c # out) = columns out"
| "columns (Sgr0 # out) = columns out"

section \<open>Input files\<close>

text \<open>
  What the C library shows of a file: the bytes still to be read, whether reading past them
  ends in a read error rather than a plain end of file (\<^verbatim>\<open>ferror\<close>), and whether
  \<^verbatim>\<open>fclose\<close> reports a failure.
\<close>

record infile =
  unread :: "byte list"
  readerror :: bool
  closeerror :: bool

text \<open>A \<^verbatim>\<open>FILE *\<close>: standard input, or a stream that fopen returned.\<close>

datatype handle = Stdin | Opened infile

text \<open>
  \<^verbatim>\<open>typedef struct state\<close> with its four fields, followed by what the functions
  working on it reach through the C library and the globals: the files that fopen finds
  (\<open>None\<close>: fopen fails), the rest of standard input, the names reported by perror, and
  \<^verbatim>\<open>exitcode\<close>. The numbers come from getn and are never negative.
\<close>

record state =
  startoffset :: nat
  maxinputlen :: nat
  filenames :: "string list"
  currentfile :: "handle option"
  files :: "string \<Rightarrow> infile option"
  stdin :: infile
  reported :: "string list"
  exitcode :: int

text \<open>\<^verbatim>\<open>fail\<close>: perror with the current file name, and the exit code is set.\<close>

definition fail :: "state \<Rightarrow> state" where
  "fail s = s\<lparr> reported := reported s @ [case filenames s of [] \<Rightarrow> ''xcd'' | name # _ \<Rightarrow> name],
               exitcode := 1 \<rparr>"

text \<open>
  \<^verbatim>\<open>inputinit\<close>: opens the next file unless one is open; a name that cannot be
  opened is reported and skipped by the recursive call. The result is false when no file
  name is left.
\<close>

function inputinit :: "state \<Rightarrow> bool \<times> state" where
  "inputinit s =
     (if currentfile s = None then
        (case filenames s of
           [] \<Rightarrow> (False, s)
         | name # rest \<Rightarrow>
            (if name = ''-''
             then (True, s\<lparr>currentfile := Some Stdin, filenames := ''stdin'' # rest\<rparr>)
             else (case files s name of
                     Some f \<Rightarrow> (True, s\<lparr>currentfile := Some (Opened f)\<rparr>)
                   | None \<Rightarrow> inputinit ((fail s)\<lparr>filenames := rest\<rparr>))))
      else (True, s))"
  by pat_completeness auto
termination
  by (relation "measure (\<lambda>s. length (filenames s))") (auto simp: fail_def)

text \<open>
  \<^verbatim>\<open>inputupdate\<close>: closes the current file, reporting a read error or a failing
  close, and moves to the next name. It is called with a file open, whose name is the head of
  the list.
\<close>

definition inputupdate :: "state \<Rightarrow> state" where
  "inputupdate s =
     (let f = (case currentfile s of Some (Opened g) \<Rightarrow> g | _ \<Rightarrow> stdin s);
          s1 = (if readerror f then fail s
                else if currentfile s \<noteq> Some Stdin \<and> closeerror f then fail s
                else s)
      in s1\<lparr>currentfile := None, filenames := drop 1 (filenames s1)\<rparr>)"

text \<open>
  \<^verbatim>\<open>fgetc(s->currentfile)\<close>: the next byte of the open stream, or \<open>None\<close> for EOF.
\<close>

definition fgetc :: "state \<Rightarrow> byte option \<times> state" where
  "fgetc s =
     (case currentfile s of
        Some Stdin \<Rightarrow>
          (case unread (stdin s) of
             [] \<Rightarrow> (None, s)
           | b # bs \<Rightarrow> (Some b, s\<lparr>stdin := (stdin s)\<lparr>unread := bs\<rparr>\<rparr>))
      | Some (Opened f) \<Rightarrow>
          (case unread f of
             [] \<Rightarrow> (None, s)
           | b # bs \<Rightarrow> (Some b, s\<lparr>currentfile := Some (Opened (f\<lparr>unread := bs\<rparr>))\<rparr>))
      | None \<Rightarrow> (None, s))"

lemma inputinit_result:
  "inputinit s = (True, s1) \<Longrightarrow>
     (currentfile s \<noteq> None \<and> s1 = s)
   \<or> (currentfile s = None \<and> currentfile s1 \<noteq> None \<and> filenames s1 \<noteq> []
      \<and> length (filenames s1) \<le> length (filenames s))"
proof (induction s rule: inputinit.induct)
  case (1 s)
  show ?case
  proof (cases "currentfile s = None")
    case False
    with "1.prems" show ?thesis by simp
  next
    case True
    show ?thesis
    proof (cases "filenames s")
      case Nil
      with True "1.prems" show ?thesis by simp
    next
      case (Cons name rest)
      show ?thesis
      proof (cases "name = ''-''")
        case d: True
        with "1.prems" True Cons show ?thesis by auto
      next
        case d: False
        show ?thesis
        proof (cases "files s name")
          case (Some f)
          with "1.prems" True Cons d show ?thesis by auto
        next
          case None
          let ?s' = "(fail s)\<lparr>filenames := rest\<rparr>"
          have r: "inputinit ?s' = (True, s1)" using "1.prems" True Cons d None by simp
          have cs: "currentfile ?s' = None" using True by (simp add: fail_def)
          have fs: "filenames ?s' = rest" by simp
          from "1.IH" [OF True Cons d None r]
          have "currentfile s1 \<noteq> None \<and> filenames s1 \<noteq> []
                  \<and> length (filenames s1) \<le> length rest"
            unfolding fs using cs by blast
          then show ?thesis using True Cons by simp
        qed
      qed
    qed
  qed
qed

lemma fgetc_frame:
  "fgetc s = (r, s') \<Longrightarrow>
     filenames s' = filenames s \<and> (currentfile s' = None \<longleftrightarrow> currentfile s = None)
     \<and> startoffset s' = startoffset s \<and> maxinputlen s' = maxinputlen s"
  by (auto simp: fgetc_def split: option.splits handle.splits list.splits)

text \<open>\<^verbatim>\<open>nextbyte\<close>: the next byte of the concatenated input, or \<open>None\<close> for EOF.\<close>

function nextbyte :: "state \<Rightarrow> byte option \<times> state" where
  "nextbyte s =
     (case inputinit s of
        (False, s1) \<Rightarrow> (None, s1)
      | (True, s1) \<Rightarrow>
          (case fgetc s1 of
             (Some b, s2) \<Rightarrow> (Some b, s2)
           | (None, s2) \<Rightarrow> nextbyte (inputupdate s2)))"
  by pat_completeness auto
termination
proof (relation "measure (\<lambda>s. 2 * length (filenames s) + (if currentfile s = None then 0 else 1))")
  show "wf (measure (\<lambda>s. 2 * length (filenames s) + (if currentfile s = None then 0 else 1)))"
    by simp
next
  fix s s1 s2 :: state and x :: bool and r :: "byte option"
  assume a: "(x, s1) = inputinit s" "x = True" "(r, s2) = fgetc s1" "r = None"
  then have i: "inputinit s = (True, s1)" and f: "fgetc s1 = (None, s2)" by simp_all
  have u: "currentfile (inputupdate s2) = None"
          "filenames (inputupdate s2) = drop 1 (filenames s2)"
    by (simp_all add: inputupdate_def Let_def fail_def)
  from fgetc_frame [OF f] have fr: "filenames s2 = filenames s1"
       "currentfile s2 = None \<longleftrightarrow> currentfile s1 = None" by simp_all
  from inputinit_result [OF i]
  show "(inputupdate s2, s) \<in> measure (\<lambda>s. 2 * length (filenames s) + (if currentfile s = None then 0 else 1))"
    using u fr by (cases "filenames s1") auto
qed

text \<open>
  The logical concatenated stream: the bytes that the names still to be opened will deliver,
  given what is left of standard input. A name that cannot be opened delivers nothing;
  standard input is used up by its first occurrence.
\<close>

fun pending :: "(string \<Rightarrow> infile option) \<Rightarrow> byte list \<Rightarrow> string list \<Rightarrow> byte list" where
  "pending fs sin [] = []"
| "pending fs sin (name # rest) =
     (if name = ''-'' then sin @ pending fs [] rest
      else (case fs name of
              None \<Rightarrow> pending fs sin rest
            | Some f \<Rightarrow> unread f @ pending fs sin rest))"

definition instream :: "state \<Rightarrow> byte list" where
  "instream s =
     (case currentfile s of
        None \<Rightarrow> pending (files s) (unread (stdin s)) (filenames s)
      | Some Stdin \<Rightarrow> unread (stdin s) @ pending (files s) [] (drop 1 (filenames s))
      | Some (Opened f) \<Rightarrow> unread f @ pending (files s) (unread (stdin s)) (drop 1 (filenames s)))"

lemma inputinit_stream:
  "inputinit s = (b, s1) \<Longrightarrow>
     instream s1 = instream s \<and> startoffset s1 = startoffset s \<and> maxinputlen s1 = maxinputlen s
     \<and> (b \<longleftrightarrow> currentfile s1 \<noteq> None) \<and> (\<not> b \<longrightarrow> instream s = [])"
proof (induction s rule: inputinit.induct)
  case (1 s)
  show ?case
  proof (cases "currentfile s = None")
    case False
    with "1.prems" show ?thesis by auto
  next
    case True
    show ?thesis
    proof (cases "filenames s")
      case Nil
      with True "1.prems" show ?thesis by (auto simp: instream_def)
    next
      case (Cons name rest)
      show ?thesis
      proof (cases "name = ''-''")
        case d: True
        with "1.prems" True Cons show ?thesis by (auto simp: instream_def)
      next
        case d: False
        show ?thesis
        proof (cases "files s name")
          case (Some f)
          with "1.prems" True Cons d show ?thesis by (auto simp: instream_def)
        next
          case None
          let ?s' = "(fail s)\<lparr>filenames := rest\<rparr>"
          have r: "inputinit ?s' = (b, s1)" using "1.prems" True Cons d None by simp
          have e: "instream ?s' = instream s" "startoffset ?s' = startoffset s"
                  "maxinputlen ?s' = maxinputlen s"
            using True Cons d None by (simp_all add: instream_def fail_def)
          from "1.IH" [OF True Cons d None r] show ?thesis unfolding e .
        qed
      qed
    qed
  qed
qed

lemma fgetc_stream:
  assumes "fgetc s = (r, s')" "currentfile s \<noteq> None"
  shows "startoffset s' = startoffset s \<and> maxinputlen s' = maxinputlen s
         \<and> (case r of Some b \<Rightarrow> instream s = b # instream s'
                    | None \<Rightarrow> instream (inputupdate s') = instream s
                              \<and> startoffset (inputupdate s') = startoffset s
                              \<and> maxinputlen (inputupdate s') = maxinputlen s)"
  using assms
  by (auto simp: fgetc_def instream_def inputupdate_def Let_def fail_def
           split: option.splits handle.splits list.splits)

lemma nextbyte_stream:
  "nextbyte s = (r, s') \<Longrightarrow>
     startoffset s' = startoffset s \<and> maxinputlen s' = maxinputlen s
     \<and> (case r of Some b \<Rightarrow> instream s = b # instream s'
                | None \<Rightarrow> instream s = [] \<and> instream s' = [])"
proof (induction s rule: nextbyte.induct)
  case (1 s)
  obtain b s1 where i: "inputinit s = (b, s1)" by (cases "inputinit s")
  note ii = inputinit_stream [OF i]
  show ?case
  proof (cases b)
    case False
    with "1.prems" i ii show ?thesis by auto
  next
    case True
    obtain r2 s2 where f: "fgetc s1 = (r2, s2)" by (cases "fgetc s1")
    from True ii have c: "currentfile s1 \<noteq> None" by simp
    note fs = fgetc_stream [OF f c]
    show ?thesis
    proof (cases r2)
      case (Some x)
      with "1.prems" i True f fs ii show ?thesis by auto
    next
      case None
      then have n: "nextbyte (inputupdate s2) = (r, s')" using "1.prems" i True f by simp
      have bt: "b = True" using True by simp
      from "1.IH" [OF i [symmetric] bt f [symmetric] None n] fs None ii
      show ?thesis by (auto split: option.splits)
    qed
  qed
qed

section \<open>The line output functions\<close>

text \<open>
  \<^verbatim>\<open>dumpzerolines\<close>; \<^verbatim>\<open>static byte zeroline[256]\<close> is zero-initialised and never
  written.
\<close>

definition zeroline :: "byte list" where
  "zeroline = replicate 256 0"

function dumpzerolines_loop :: "settings \<Rightarrow> nat \<Rightarrow> nat \<Rightarrow> int \<Rightarrow> colors
                                \<Rightarrow> (outitem list \<times> colors) option" where
  "dumpzerolines_loop cfg i count pos c =
     (if i < count then
        (case dumpline cfg zeroline (linesize cfg) (pos + int i * int (linesize cfg)) c of
           None \<Rightarrow> None
         | Some (out, c1) \<Rightarrow>
            (case dumpzerolines_loop cfg (i + 1) count pos c1 of
               None \<Rightarrow> None
             | Some (out', c2) \<Rightarrow> Some (out @ out', c2)))
      else Some ([], c))"
  by pat_completeness auto
termination
  by (relation "measure (\<lambda>(cfg, i, count, pos, c). count - i)") auto

definition dumpzerolines :: "settings \<Rightarrow> nat \<Rightarrow> int \<Rightarrow> colors \<Rightarrow> (outitem list \<times> colors) option" where
  "dumpzerolines cfg count pos c =
     (if count > 2 then
        (case dumpline cfg zeroline (linesize cfg) pos c of
           None \<Rightarrow> None
         | Some (out, c1) \<Rightarrow> Some (out @ [Out 42, Out 10], c1))
      else dumpzerolines_loop cfg 0 count pos c)"

text \<open>
  \<^verbatim>\<open>dumpfiles\<close>. The variable \<^verbatim>\<open>ch\<close> holds a byte or EOF (\<open>None\<close>). The inner
  loop fills \<^verbatim>\<open>line\<close> with up to \<^verbatim>\<open>linesize\<close> bytes and returns the count
  \<open>n\<close>.
\<close>

function dumpfiles_fill :: "settings \<Rightarrow> nat \<Rightarrow> byte option \<Rightarrow> byte list \<Rightarrow> state
                            \<Rightarrow> nat \<times> byte option \<times> byte list \<times> state" where
  "dumpfiles_fill cfg n ch line s =
     (if n < linesize cfg \<and> 0 < maxinputlen s then
        (case nextbyte s of
           (None, s1) \<Rightarrow> (n, None, line, s1)
         | (Some b, s1) \<Rightarrow>
             dumpfiles_fill cfg (n + 1) (Some b) (line[n := b])
               (s1\<lparr>maxinputlen := maxinputlen s1 - 1\<rparr>))
      else (n, ch, line, s))"
  by pat_completeness auto
termination
  by (relation "measure (\<lambda>(cfg, n, ch, line, s). linesize cfg - n)") auto

lemma dumpfiles_fill_count:
  "dumpfiles_fill cfg n0 ch line s = (n, ch', line', s') \<Longrightarrow>
     n0 \<le> n \<and> maxinputlen s' + (n - n0) = maxinputlen s"
proof (induction cfg n0 ch line s rule: dumpfiles_fill.induct)
  case (1 cfg n0 ch line s)
  show ?case
  proof (cases "n0 < linesize cfg \<and> 0 < maxinputlen s")
    case False
    with "1.prems" show ?thesis by auto
  next
    case True
    obtain r s1 where nb: "nextbyte s = (r, s1)" by (cases "nextbyte s")
    from nextbyte_stream [OF nb] have m: "maxinputlen s1 = maxinputlen s" by simp
    show ?thesis
    proof (cases r)
      case None
      with "1.prems" True nb m show ?thesis by auto
    next
      case (Some b)
      with "1.prems" True nb
      have "dumpfiles_fill cfg (n0 + 1) (Some b) (line[n0 := b])
               (s1\<lparr>maxinputlen := maxinputlen s1 - 1\<rparr>) = (n, ch', line', s')" by simp
      from "1.IH" [OF True nb [symmetric] Some this] True m
      show ?thesis by auto
    qed
  qed
qed

function dumpfiles_loop :: "settings \<Rightarrow> byte option \<Rightarrow> byte list \<Rightarrow> state \<Rightarrow> int \<Rightarrow> colors
                            \<Rightarrow> (outitem list \<times> colors \<times> state) option" where
  "dumpfiles_loop cfg ch line s pos c =
     (if ch \<noteq> None \<and> 0 < maxinputlen s then
        (case dumpfiles_fill cfg 0 ch line s of
           (n, ch1, line1, s1) \<Rightarrow>
             if n = 0 then Some ([], c, s1)
             else
               (case dumpline cfg line1 n pos c of
                  None \<Rightarrow> None
                | Some (out, c1) \<Rightarrow>
                   (case dumpfiles_loop cfg ch1 line1 s1 (pos + int n) c1 of
                      None \<Rightarrow> None
                    | Some (out', c2, s2) \<Rightarrow> Some (out @ out', c2, s2))))
      else Some ([], c, s))"
  by pat_completeness auto
termination
proof (relation "measure (\<lambda>(cfg, ch, line, s, pos, c). maxinputlen s)")
  show "wf (measure (\<lambda>(cfg, ch, line, s, pos, c). maxinputlen s))" by simp
next
  fix cfg :: settings and ch ch1 :: "byte option" and line line1 :: "byte list"
    and s s1 :: state and pos :: int and c c1 :: colors and n :: nat
    and x y z and out :: "outitem list" and w
  assume "(n, x) = dumpfiles_fill cfg 0 ch line s" "(ch1, y) = x" "(line1, s1) = y" "n \<noteq> 0"
  then have "dumpfiles_fill cfg 0 ch line s = (n, ch1, line1, s1)" by simp
  from dumpfiles_fill_count [OF this] \<open>n \<noteq> 0\<close>
  show "((cfg, ch1, line1, s1, pos + int n, c1), cfg, ch, line, s, pos, c)
          \<in> measure (\<lambda>(cfg, ch, line, s, pos, c). maxinputlen s)"
    by simp
qed

text \<open>
  The buffer \<^verbatim>\<open>line\<close> is an uninitialised local array of 256 bytes; its initial
  contents \<open>line0\<close> are a parameter.
\<close>

definition dumpfiles :: "settings \<Rightarrow> byte list \<Rightarrow> state \<Rightarrow> int \<Rightarrow> colors
                          \<Rightarrow> (outitem list \<times> colors \<times> state) option" where
  "dumpfiles cfg line0 s pos c = dumpfiles_loop cfg (Some 0) line0 s pos c"

text \<open>
  \<^verbatim>\<open>dumpfileswithautoskip\<close>. The inner loop also accumulates \<^verbatim>\<open>nonzero |= ch\<close>.
\<close>

function autoskip_fill :: "settings \<Rightarrow> nat \<Rightarrow> byte \<Rightarrow> byte option \<Rightarrow> byte list \<Rightarrow> state
                            \<Rightarrow> nat \<times> byte \<times> byte option \<times> byte list \<times> state" where
  "autoskip_fill cfg n nonzero ch line s =
     (if n < linesize cfg \<and> 0 < maxinputlen s then
        (case nextbyte s of
           (None, s1) \<Rightarrow> (n, nonzero, None, line, s1)
         | (Some b, s1) \<Rightarrow>
             autoskip_fill cfg (n + 1) (nonzero OR b) (Some b) (line[n := b])
               (s1\<lparr>maxinputlen := maxinputlen s1 - 1\<rparr>))
      else (n, nonzero, ch, line, s))"
  by pat_completeness auto
termination
  by (relation "measure (\<lambda>(cfg, n, nonzero, ch, line, s). linesize cfg - n)") auto

lemma autoskip_fill_count:
  "autoskip_fill cfg n0 nz ch line s = (n, nz', ch', line', s') \<Longrightarrow>
     n0 \<le> n \<and> maxinputlen s' + (n - n0) = maxinputlen s"
proof (induction cfg n0 nz ch line s rule: autoskip_fill.induct)
  case (1 cfg n0 nz ch line s)
  show ?case
  proof (cases "n0 < linesize cfg \<and> 0 < maxinputlen s")
    case False
    with "1.prems" show ?thesis by auto
  next
    case True
    obtain r s1 where nb: "nextbyte s = (r, s1)" by (cases "nextbyte s")
    from nextbyte_stream [OF nb] have m: "maxinputlen s1 = maxinputlen s" by simp
    show ?thesis
    proof (cases r)
      case None
      with "1.prems" True nb m show ?thesis by auto
    next
      case (Some b)
      with "1.prems" True nb
      have "autoskip_fill cfg (n0 + 1) (nz OR b) (Some b) (line[n0 := b])
               (s1\<lparr>maxinputlen := maxinputlen s1 - 1\<rparr>) = (n, nz', ch', line', s')" by simp
      from "1.IH" [OF True nb [symmetric] Some this] True m
      show ?thesis by auto
    qed
  qed
qed

text \<open>
  The statements after the loop: the held lines but the last go through
  \<^verbatim>\<open>dumpzerolines\<close>, the last one is printed from the buffer with its own length.
\<close>

definition autoskip_flush :: "settings \<Rightarrow> byte list \<Rightarrow> state \<Rightarrow> int \<Rightarrow> nat \<Rightarrow> nat \<Rightarrow> int \<Rightarrow> colors
                             \<Rightarrow> (outitem list \<times> colors \<times> state) option" where
  "autoskip_flush cfg line s pos linesheld lastheldsize holdpos c =
     (if linesheld \<noteq> 0 then
        (case dumpzerolines cfg (linesheld - 1) holdpos c of
           None \<Rightarrow> None
         | Some (out, c1) \<Rightarrow>
            (case dumpline cfg line lastheldsize (pos - int lastheldsize) c1 of
               None \<Rightarrow> None
             | Some (out', c2) \<Rightarrow> Some (out @ out', c2, s)))
      else Some ([], c, s))"

function dumpfileswithautoskip_loop ::
  "settings \<Rightarrow> byte option \<Rightarrow> byte list \<Rightarrow> state \<Rightarrow> int \<Rightarrow> nat \<Rightarrow> nat \<Rightarrow> int \<Rightarrow> colors
     \<Rightarrow> (outitem list \<times> colors \<times> state) option" where
  "dumpfileswithautoskip_loop cfg ch line s pos linesheld lastheldsize holdpos c =
     (if ch \<noteq> None \<and> 0 < maxinputlen s then
        (case autoskip_fill cfg 0 0 ch line s of
           (n, nonzero, ch1, line1, s1) \<Rightarrow>
             if n = 0 then autoskip_flush cfg line1 s1 pos linesheld lastheldsize holdpos c
             else if nonzero \<noteq> 0 then
               (case (if linesheld \<noteq> 0 then dumpzerolines cfg linesheld holdpos c
                      else Some ([], c)) of
                  None \<Rightarrow> None
                | Some (out0, c0) \<Rightarrow>
                   (case dumpline cfg line1 n pos c0 of
                      None \<Rightarrow> None
                    | Some (out1, c1) \<Rightarrow>
                       (case dumpfileswithautoskip_loop cfg ch1 line1 s1 (pos + int n)
                               0 lastheldsize holdpos c1 of
                          None \<Rightarrow> None
                        | Some (out2, c2, s2) \<Rightarrow> Some (out0 @ out1 @ out2, c2, s2))))
             else
               dumpfileswithautoskip_loop cfg ch1 line1 s1 (pos + int n)
                 (linesheld + 1) n (if linesheld = 0 then pos else holdpos) c)
      else autoskip_flush cfg line s pos linesheld lastheldsize holdpos c)"
  by pat_completeness auto
termination
proof (relation "measure (\<lambda>(cfg, ch, line, s, pos, lh, lhs, hp, c). maxinputlen s)", goal_cases)
  case 1
  show ?case by simp
next
  case (2 cfg ch line s pos lh lhs hp c n y nz ya ch1 yb line1 s1)
  then have "autoskip_fill cfg 0 0 ch line s = (n, nz, ch1, line1, s1)" by simp
  from autoskip_fill_count [OF this] \<open>n \<noteq> 0\<close> show ?case by simp
next
  case (3 cfg ch line s pos lh lhs hp c n y nz ya ch1 yb line1 s1)
  then have "autoskip_fill cfg 0 0 ch line s = (n, nz, ch1, line1, s1)" by simp
  from autoskip_fill_count [OF this] \<open>n \<noteq> 0\<close> show ?case by simp
qed

definition dumpfileswithautoskip :: "settings \<Rightarrow> byte list \<Rightarrow> state \<Rightarrow> int \<Rightarrow> colors
                          \<Rightarrow> (outitem list \<times> colors \<times> state) option" where
  "dumpfileswithautoskip cfg line0 s pos c = dumpfileswithautoskip_loop cfg (Some 0) line0 s pos 0 0 0 c"


text \<open>
  \<^verbatim>\<open>dump\<close>. The first loop skips \<^verbatim>\<open>startoffset\<close> bytes; it yields false when
  the input ends before that, and the function returns.
\<close>

function dump_skip :: "nat \<Rightarrow> state \<Rightarrow> bool \<times> nat \<times> state" where
  "dump_skip pos s =
     (if pos < startoffset s then
        (case nextbyte s of
           (None, s1) \<Rightarrow> (False, pos, s1)
         | (Some b, s1) \<Rightarrow> dump_skip (pos + 1) s1)
      else (True, pos, s))"
  by pat_completeness auto
termination
proof (relation "measure (\<lambda>(pos, s). startoffset s - pos)", goal_cases)
  case 1
  show ?case by simp
next
  case (2 pos s r s1 b)
  then have "nextbyte s = (Some b, s1)" by simp
  from nextbyte_stream [OF this] 2 show ?case by simp
qed

definition dump :: "settings \<Rightarrow> byte list \<Rightarrow> state \<Rightarrow> colors
                     \<Rightarrow> (outitem list \<times> colors \<times> state) option" where
  "dump cfg line0 s c =
     (case dump_skip 0 s of
        (False, pos, s1) \<Rightarrow> Some ([], c, s1)
      | (True, pos, s1) \<Rightarrow>
          if autoskip cfg then dumpfileswithautoskip cfg line0 s1 (int pos) c
          else dumpfiles cfg line0 s1 (int pos) c)"

text \<open>
  \<^verbatim>\<open>main\<close>, from the point where the options have been stored: the settings are
  completed, the terminal is set up, the input is dumped. \<open>None\<close> stands for the exits
  through die and for a fault; otherwise the result carries everything written to standard
  output, the initialisation strings first, and the exit code.
\<close>

definition main :: "settings \<Rightarrow> terminal \<Rightarrow> byte list \<Rightarrow> state \<Rightarrow> (outitem list \<times> int) option" where
  "main cfg0 ti line0 s =
     (case parsecommandline_finish cfg0 of
        None \<Rightarrow> None
      | Some cfg \<Rightarrow>
         (case initoutput cfg ti colors0 of
            None \<Rightarrow> None
          | Some (out0, c) \<Rightarrow>
             (case dump cfg line0 s c of
                None \<Rightarrow> None
              | Some (out, c', s') \<Rightarrow> Some (out0 @ out, exitcode s'))))"

section \<open>The output as a sequence of lines\<close>

text \<open>
  What the dump functions do to standard output is a sequence of calls of
  \<^verbatim>\<open>dumpline\<close> and of \<^verbatim>\<open>printf("*\n")\<close>. An event stands for one such call;
  \<open>emit\<close> performs them in order.
\<close>

datatype event = Line "byte list" int | Marker

fun emit :: "settings \<Rightarrow> event list \<Rightarrow> colors \<Rightarrow> (outitem list \<times> colors) option" where
  "emit cfg [] c = Some ([], c)"
| "emit cfg (Line buf pos # evs) c =
     (case dumpline cfg buf (length buf) pos c of
        None \<Rightarrow> None
      | Some (out, c1) \<Rightarrow>
         (case emit cfg evs c1 of
            None \<Rightarrow> None
          | Some (out', c2) \<Rightarrow> Some (out @ out', c2)))"
| "emit cfg (Marker # evs) c =
     (case emit cfg evs c of
        None \<Rightarrow> None
      | Some (out', c2) \<Rightarrow> Some ([Out 42, Out 10] @ out', c2))"

text \<open>The output and the palette of a finished dump, without the input state.\<close>

definition rendered :: "(outitem list \<times> colors \<times> state) option \<Rightarrow> (outitem list \<times> colors) option" where
  "rendered r = map_option (\<lambda>(out, c, s). (out, c)) r"

text \<open>The bytes \<open>xs\<close> cut into lines of \<open>L\<close> bytes, the first at position \<open>pos\<close>.\<close>

function plain_events :: "nat \<Rightarrow> int \<Rightarrow> byte list \<Rightarrow> event list" where
  "plain_events L pos xs =
     (if L = 0 \<or> xs = [] then []
      else Line (take L xs) pos # plain_events L (pos + int (length (take L xs))) (drop L xs))"
  by pat_completeness auto
termination
  by (relation "measure (\<lambda>(L, pos, xs). length xs)") auto

text \<open>The lines of \<^verbatim>\<open>dumpzerolines(count, pos)\<close>.\<close>

definition zero_events :: "nat \<Rightarrow> nat \<Rightarrow> int \<Rightarrow> event list" where
  "zero_events L count pos =
     (if count > 2 then [Line (replicate L 0) pos, Marker]
      else map (\<lambda>i. Line (replicate L 0) (pos + int i * int L)) [0..<count])"

text \<open>\<open>k\<close> all-zero lines of full width from \<open>pos\<close> on, none of them left out.\<close>

definition zero_lines :: "nat \<Rightarrow> nat \<Rightarrow> int \<Rightarrow> event list" where
  "zero_lines L k pos = map (\<lambda>i. Line (replicate L 0) (pos + int i * int L)) [0..<k]"

text \<open>
  The lines of the autoskip coordinator on the bytes \<open>xs\<close>, entered at position \<open>pos\<close>
  with \<open>linesheld\<close> lines held since \<open>holdpos\<close>, the last of them \<open>lastheldsize\<close> bytes
  long.
\<close>

function held_events :: "nat \<Rightarrow> int \<Rightarrow> nat \<Rightarrow> nat \<Rightarrow> int \<Rightarrow> byte list \<Rightarrow> event list" where
  "held_events L pos linesheld lastheldsize holdpos xs =
     (if L = 0 \<or> xs = [] then
        (if linesheld \<noteq> 0
         then zero_events L (linesheld - 1) holdpos
              @ [Line (replicate lastheldsize 0) (pos - int lastheldsize)]
         else [])
      else if \<exists>b \<in> set (take L xs). b \<noteq> 0 then
        (if linesheld \<noteq> 0 then zero_events L linesheld holdpos else [])
        @ Line (take L xs) pos
        # held_events L (pos + int (length (take L xs))) 0 lastheldsize holdpos (drop L xs)
      else
        held_events L (pos + int (length (take L xs))) (linesheld + 1) (length (take L xs))
          (if linesheld = 0 then pos else holdpos) (drop L xs))"
  by pat_completeness auto
termination
  by (relation "measure (\<lambda>(L, pos, lh, lhs, hp, xs). length xs)") auto

definition autoskip_events :: "nat \<Rightarrow> int \<Rightarrow> byte list \<Rightarrow> event list" where
  "autoskip_events L pos xs = held_events L pos 0 0 0 xs"

text \<open>The bytes that a sequence of lines shows.\<close>

fun event_bytes :: "event list \<Rightarrow> byte list" where
  "event_bytes [] = []"
| "event_bytes (Line buf pos # evs) = buf @ event_bytes evs"
| "event_bytes (Marker # evs) = event_bytes evs"

text \<open>
  Inputs without failure: no read error on standard input or on the open file, and every
  name still to be opened names a file that opens, reads and closes without error.
\<close>

definition readable :: "infile \<Rightarrow> bool" where
  "readable f = (\<not> readerror f \<and> \<not> closeerror f)"

definition inputs_ok :: "state \<Rightarrow> bool" where
  "inputs_ok s =
     (\<not> readerror (stdin s)
      \<and> (\<forall>f. currentfile s = Some (Opened f) \<longrightarrow> readable f)
      \<and> (\<forall>name \<in> set (if currentfile s = None then filenames s else drop 1 (filenames s)).
            name \<noteq> ''-'' \<longrightarrow> (\<exists>f. files s name = Some f \<and> readable f)))"

text \<open>Small concrete inputs and settings, used to run the theorems on.\<close>

definition plainfile :: "byte list \<Rightarrow> infile" where
  "plainfile bs = \<lparr> unread = bs, readerror = False, closeerror = False \<rparr>"

definition twofiles :: state where
  "twofiles = \<lparr> startoffset = 2, maxinputlen = 3, filenames = [''a'', ''b''], currentfile = None,
                files = (\<lambda>name. if name = ''a'' then Some (plainfile [1, 2, 3])
                                else if name = ''b'' then Some (plainfile [4, 5, 6]) else None),
                stdin = plainfile [], reported = [], exitcode = 0 \<rparr>"


definition plain_settings :: settings where
  "plain_settings = default_settings\<lparr>colorize := False, hexwidth := 40\<rparr>"

definition autoskip_settings :: settings where
  "autoskip_settings = default_settings\<lparr>autoskip := True, colorize := False, hexwidth := 40\<rparr>"

definition zeros_then_one :: state where
  "zeros_then_one = \<lparr> startoffset = 0, maxinputlen = 2147483647, filenames = [''z''],
                      currentfile = None,
                      files = (\<lambda>name. if name = ''z'' then Some (plainfile (replicate 48 0 @ [1]))
                                      else None),
                      stdin = plainfile [], reported = [], exitcode = 0 \<rparr>"

definition zeros_only :: state where
  "zeros_only = \<lparr> startoffset = 0, maxinputlen = 2147483647, filenames = [''z''],
                  currentfile = None,
                  files = (\<lambda>name. if name = ''z'' then Some (plainfile (replicate 52 0)) else None),
                  stdin = plainfile [], reported = [], exitcode = 0 \<rparr>"

definition short_input :: state where
  "short_input = twofiles\<lparr>startoffset := 10\<rparr>"

definition drained :: state where
  "drained = zeros_only\<lparr>filenames := []\<rparr>"

section \<open>Rendering with a fixed palette\<close>

text \<open>
  The output of the three renderers when the colour of every byte is looked up in one fixed
  palette \<open>pal\<close>, with no assignment taking place. The colourised renderers are compared
  with these.
\<close>

fun draw_bytes :: "settings \<Rightarrow> (byte \<Rightarrow> byte) \<Rightarrow> byte list \<Rightarrow> outitem list" where
  "draw_bytes cfg pal [] = []"
| "draw_bytes cfg pal (ch # rest) =
     (if \<not> isgraph ch then [Out ch]
      else Setaf (pal ch) # map Out (getbyterepresentation (useunicode cfg) ch))
     @ draw_bytes cfg pal rest"

fun draw_hex :: "settings \<Rightarrow> (byte \<Rightarrow> byte) \<Rightarrow> nat \<Rightarrow> byte list \<Rightarrow> outitem list" where
  "draw_hex cfg pal i [] = []"
| "draw_hex cfg pal i (ch # rest) =
     (if i mod groupsize cfg = 0 then [Out 32] else [])
     @ Setaf (pal ch) # hex2 ch @ draw_hex cfg pal (i + 1) rest"

fun draw_glyphs :: "settings \<Rightarrow> (byte \<Rightarrow> byte) \<Rightarrow> byte list \<Rightarrow> outitem list" where
  "draw_glyphs cfg pal [] = []"
| "draw_glyphs cfg pal (ch # rest) =
     Setaf (pal ch) # map Out (getbyterepresentation (useunicode cfg) ch) @ draw_glyphs cfg pal rest"

definition draw_line :: "settings \<Rightarrow> (byte \<Rightarrow> byte) \<Rightarrow> byte list \<Rightarrow> int \<Rightarrow> outitem list" where
  "draw_line cfg pal buf pos =
     (if buf = [] then []
      else if \<not> hexoutput cfg then draw_bytes cfg pal buf @ [Sgr0]
      else if colorize cfg then
        Sgr0 # hex8 pos @ str '':'' @ draw_hex cfg pal 0 buf
        @ Sgr0 # pad (snd (hexloop_uncolored cfg 0 buf (hexwidth cfg - 2 * int (length buf))))
        @ str ''  '' @ draw_glyphs cfg pal buf @ [Sgr0, Out 10]
      else renderlineuncolored cfg buf pos)"

fun draw :: "settings \<Rightarrow> (byte \<Rightarrow> byte) \<Rightarrow> event list \<Rightarrow> outitem list" where
  "draw cfg pal [] = []"
| "draw cfg pal (Line buf pos # evs) = draw_line cfg pal buf pos @ draw cfg pal evs"
| "draw cfg pal (Marker # evs) = [Out 42, Out 10] @ draw cfg pal evs"

text \<open>The bytes of a chunk that the selected renderer gives a colour, in the order it meets them.\<close>

definition shown :: "settings \<Rightarrow> byte list \<Rightarrow> byte list" where
  "shown cfg buf =
     (if \<not> hexoutput cfg then filter isgraph buf else if colorize cfg then buf else [])"

fun observed :: "settings \<Rightarrow> event list \<Rightarrow> byte list" where
  "observed cfg [] = []"
| "observed cfg (Line buf pos # evs) = shown cfg buf @ observed cfg evs"
| "observed cfg (Marker # evs) = observed cfg evs"

text \<open>
  The distinct non-zero byte values of a sequence in the order of their first occurrence.
\<close>

definition observe :: "byte \<Rightarrow> byte list \<Rightarrow> byte list" where
  "observe b seen = (if b = 0 \<or> b \<in> set seen then seen else seen @ [b])"

definition first_seen :: "byte list \<Rightarrow> byte list" where
  "first_seen bs = fold observe bs []"

text \<open>
  The palette has byte zero on the first colour and the bytes of \<open>seen\<close>, in this order, on
  the colours that follow; nothing else is assigned.
\<close>

definition palette_of :: "colors \<Rightarrow> byte list \<Rightarrow> bool" where
  "palette_of c seen =
     (distinct seen \<and> 0 \<notin> set seen
      \<and> nextcolorfromset c = length seen + 1
      \<and> palette c 0 = colorset ! 0
      \<and> (\<forall>i < length seen. palette c (seen ! i) = colorset ! (i + 1))
      \<and> (\<forall>b. b \<noteq> 0 \<and> b \<notin> set seen \<longrightarrow> palette c b = 0))"

text \<open>
  Room is left in the colour set for every byte that is still unassigned.
\<close>

definition roomy :: "colors \<Rightarrow> bool" where
  "roomy c = (nextcolorfromset c + card {b. palette c b = 0} \<le> length colorset)"

text \<open>A terminal that \<^verbatim>\<open>initoutput\<close> accepts for colour output.\<close>

definition colorterm :: "terminal \<Rightarrow> bool" where
  "colorterm ti = (setupterm_ok ti \<and> sgr0_cap ti \<and> setaf_cap ti \<and> 256 \<le> colors_cap ti)"

text \<open>
  The terminfo entry xterm-256color: is2 is \<^verbatim>\<open>ESC [ ! p ESC [ ? 3 ; 4 l ESC [ 4 l ESC >\<close>,
  is1 and is3 are absent.
\<close>

definition xterm :: terminal where
  "xterm = \<lparr> setupterm_ok = True, sgr0_cap = True, setaf_cap = True, colors_cap = 256,
             is1 = None,
             is2 = Some [27, 91, 33, 112, 27, 91, 63, 51, 59, 52, 108, 27, 91, 52, 108, 27, 62],
             is3 = None \<rparr>"

definition xterm_is2 :: "outitem list" where
  "xterm_is2 = map Out [27, 91, 33, 112, 27, 91, 63, 51, 59, 52, 108, 27, 91, 52, 108, 27, 62]"

text \<open>The settings and the palette after start-up on a colour terminal; a line with every byte value.\<close>

definition color_settings :: settings where
  "color_settings = default_settings\<lparr>hexwidth := 40\<rparr>"

definition colors_init :: colors where
  "colors_init = \<lparr> palette = (\<lambda>_. 0)(0 := colorset ! 0), nextcolorfromset = 1 \<rparr>"

definition all_bytes :: "byte list" where
  "all_bytes = map of_nat [0..<256]"
section \<open>Properties of the glyph resolver\<close>

lemma bitpos8: "n < LENGTH(8) \<Longrightarrow> n \<in> {0, 1, 2, 3, 4, 5, 6, 7}"
  by simp arith

lemma lead_disjoint: "0xC0 AND drop_bit 6 (b::byte) = 0"
  apply (rule bit_word_eqI)
  subgoal for n by (drule bitpos8) (elim insertE emptyE; auto simp add: bit_simps dest: bit_imp_le_length)
  done

lemma cont_disjoint: "0x80 AND ((b::byte) AND 0x3F) = 0"
  apply (rule bit_word_eqI)
  subgoal for n by (drule bitpos8) (elim insertE emptyE; simp add: bit_simps)
  done

lemma lead_byte: "0xC0 OR drop_bit 6 (b::byte) = of_nat (192 + unat b div 64)"
proof -
  have 1: "0xC0 OR drop_bit 6 b = 0xC0 + drop_bit 6 b"
    by (rule disjunctive_add_eq_or [symmetric]) (rule lead_disjoint)
  have 2: "drop_bit 6 b = of_nat (unat b div 64)"
    by (simp add: drop_bit_eq_div word_arith_nat_div)
  show ?thesis unfolding 1 unfolding 2 by simp
qed

lemma cont_byte: "0x80 OR ((b::byte) AND 0x3F) = of_nat (128 + unat b mod 64)"
proof -
  have 1: "0x80 OR (b AND 0x3F) = 0x80 + (b AND 0x3F)"
    by (rule disjunctive_add_eq_or [symmetric]) (rule cont_disjoint)
  have 2: "b AND 0x3F = take_bit 6 b"
    by (simp add: take_bit_eq_mask mask_eq_exp_minus_1)
  have 3: "take_bit 6 b = of_nat (unat b mod 64)"
    by (simp add: take_bit_eq_mod word_arith_nat_mod)
  show ?thesis unfolding 1 unfolding 2 unfolding 3 by simp
qed

lemma latin1_rebuild:
  "push_bit 6 ((0xC0 OR drop_bit 6 ch) AND 3) OR ((0x80 OR (ch AND 0x3F)) AND 0x3F) = (ch::byte)"
  apply (rule bit_word_eqI)
  subgoal for n by (drule bitpos8) (elim insertE emptyE; simp add: bit_simps)
  done

lemma latin1_inj:
  assumes "0xC0 OR drop_bit 6 a = 0xC0 OR drop_bit 6 (b::byte)"
      and "0x80 OR (a AND 0x3F) = 0x80 OR (b AND 0x3F)"
  shows "a = b"
proof -
  have "a = push_bit 6 ((0xC0 OR drop_bit 6 a) AND 3) OR ((0x80 OR (a AND 0x3F)) AND 0x3F)"
    by (rule latin1_rebuild [symmetric])
  also have "\<dots> = push_bit 6 ((0xC0 OR drop_bit 6 b) AND 3) OR ((0x80 OR (b AND 0x3F)) AND 0x3F)"
    by (simp only: assms)
  also have "\<dots> = b" by (rule latin1_rebuild)
  finally show ?thesis .
qed













text \<open>
  C10. In extended mode every byte value from 161 to 255 is shown as the byte pair
  0xC0|(b>>6), 0x80|(b&0x3F); this is the two-byte UTF-8 encoding of the code point with
  the number of the byte; the mapping is injective on that range.
\<close>

theorem latin1_glyph_is_utf8:
  "(\<forall>b. 161 \<le> b \<longrightarrow>
        getbyterepresentation True b = [0xC0 OR drop_bit 6 b, 0x80 OR (b AND 0x3F)]
      \<and> getbyterepresentation True b = utf8_two_bytes (unat b))
   \<and> inj_on (getbyterepresentation True) {b. 161 \<le> b}"
proof (intro conjI allI impI)
  fix b :: byte assume b: "161 \<le> b"
  then have nb: "\<not> b < 32" "b \<noteq> 32" "\<not> b < 127" "b \<noteq> 127" "\<not> b < 160" "b \<noteq> 160"
    by (auto simp: word_le_nat_alt word_less_nat_alt)
  show g: "getbyterepresentation True b = [0xC0 OR drop_bit 6 b, 0x80 OR (b AND 0x3F)]"
    using nb by (simp add: getbyterepresentation_def)
  show "getbyterepresentation True b = utf8_two_bytes (unat b)"
    unfolding g utf8_two_bytes_def by (simp only: lead_byte cont_byte)
next
  show "inj_on (getbyterepresentation True) {b. 161 \<le> b}"
  proof (rule inj_onI)
    fix a b :: byte
    assume "a \<in> {b. 161 \<le> b}" "b \<in> {b. 161 \<le> b}"
       and eq: "getbyterepresentation True a = getbyterepresentation True b"
    then have a: "161 \<le> a" and b: "161 \<le> b" by simp_all
    have ga: "getbyterepresentation True a = [0xC0 OR drop_bit 6 a, 0x80 OR (a AND 0x3F)]"
      using a by (auto simp: getbyterepresentation_def word_le_nat_alt word_less_nat_alt)
    have gb: "getbyterepresentation True b = [0xC0 OR drop_bit 6 b, 0x80 OR (b AND 0x3F)]"
      using b by (auto simp: getbyterepresentation_def word_le_nat_alt word_less_nat_alt)
    from eq show "a = b" unfolding ga gb by (auto intro: latin1_inj)
  qed
qed

theorem latin1_glyph_is_utf8_witness:
  "(161::byte) \<le> 233 \<and> getbyterepresentation True 233 = [0xC3, 0xA9]
   \<and> utf8_two_bytes 233 = [0xC3, 0xA9]
   \<and> getbyterepresentation True 233 \<noteq> getbyterepresentation True 234"
proof -
  have h: "(161::byte) \<le> 233" "(161::byte) \<le> 234" by simp_all
  have u: "utf8_two_bytes 233 = [0xC3, 0xA9]" by (simp add: utf8_two_bytes_def)
  have g: "getbyterepresentation True 233 = utf8_two_bytes (unat (233::byte))"
    using latin1_glyph_is_utf8 h by blast
  have i: "inj_on (getbyterepresentation True) {b. 161 \<le> b}"
    using latin1_glyph_is_utf8 by blast
  have n: "getbyterepresentation True 233 \<noteq> getbyterepresentation True 234"
    using inj_onD [OF i, of 233 234] h by auto
  show ?thesis using h g u n by simp
qed

section \<open>Properties of the hex line renderers\<close>

lemma int32_id: "- (2 ^ 31) \<le> v \<Longrightarrow> v < 2 ^ 31 \<Longrightarrow> int32 v = v"
  by (simp add: int32_def signed_take_bit_int_eq_self)

lemma sdiv_nonneg: "0 \<le> a \<Longrightarrow> 0 < b \<Longrightarrow> (a::int) sdiv b = a div b"
  by (simp add: signed_divide_int_def sgn_if)

lemma ceil_le: "1 \<le> (gs::nat) \<Longrightarrow> (ls + gs - 1) div gs \<le> ls"
proof -
  assume g: "1 \<le> gs"
  have "ls \<le> ls * gs" using g by simp
  then have "ls + gs - 1 < ls * gs + gs" using g by linarith
  then have "ls + gs - 1 < (ls + 1) * gs" by (simp add: algebra_simps)
  then have "(ls + gs - 1) div gs < ls + 1" by (rule less_mult_imp_div_less)
  then show ?thesis by simp
qed

lemma calc_hexwidth_exact:
  assumes "ls \<le> 255" "1 \<le> gs" "ls + gs < 2 ^ 31"
  shows "calc_hexwidth ls gs = int (2 * ls + (ls + gs - 1) div gs)"
proof -
  have d: "(ls + gs - 1) div gs \<le> 255" using ceil_le [OF assms(2), of ls] assms(1) by simp
  have s: "int32 (int ls + int gs) = int ls + int gs"
    using assms by (intro int32_id) auto
  have m: "int32 (int ls + int gs - 1) = int (ls + gs - 1)"
    using assms by (subst int32_id) auto
  have q: "int (ls + gs - 1) sdiv int gs = int ((ls + gs - 1) div gs)"
    using assms by (subst sdiv_nonneg) (auto simp: zdiv_int)
  have di: "int ((ls + gs - 1) div gs) \<le> 255" using d by (simp del: of_nat_diff)
  have q32: "int32 (int ((ls + gs - 1) div gs)) = int ((ls + gs - 1) div gs)"
    using di by (intro int32_id) (simp_all del: of_nat_diff)
  have t: "int32 (2 * int ls) = 2 * int ls"
    using assms by (intro int32_id) auto
  have f: "int32 (2 * int ls + int ((ls + gs - 1) div gs)) = 2 * int ls + int ((ls + gs - 1) div gs)"
    using di assms(1) by (intro int32_id) (simp_all del: of_nat_diff)
  have "calc_hexwidth ls gs = 2 * int ls + int ((ls + gs - 1) div gs)"
    by (simp only: calc_hexwidth_def s m q q32 t f)
  then show ?thesis by (simp del: of_nat_diff)
qed

lemma columns_append: "columns (a @ b) = columns a + columns b"
  by (induction a rule: columns.induct) auto

lemma columns_str: "columns (str s) = length s"
  by (induction s) (auto simp: str_def)

lemma columns_hex8: "columns (hex8 pos) = 8"
  by (simp add: hex8_def Let_def)

lemma columns_hex2: "columns (hex2 ch) = 2"
  by (simp add: hex2_def)

lemma columns_replicate: "columns (replicate n (Out b)) = n"
  by (induction n) auto

lemma columns_pad: "columns (pad x) = nat \<bar>x\<bar>"
  by (simp add: pad_def columns_replicate)


lemma ceil_step:
  assumes "0 < (g::nat)"
  shows "(i + g - 1) div g = i div g + (if i mod g = 0 then 0 else 1)"
proof -
  define q r where "q = i div g" and "r = i mod g"
  have i: "i = q * g + r" and r: "r < g" using assms by (simp_all add: q_def r_def)
  show ?thesis
  proof (cases "r = 0")
    case True
    have e: "i + g - 1 = q * g + (g - 1)" using i True assms by simp
    have "(q * g + (g - 1)) div g = q + (g - 1) div g"
      using assms by (simp only: div_mult_self3)
    then have "(i + g - 1) div g = q" using assms unfolding e by simp
    then show ?thesis using True assms by (simp add: q_def r_def)
  next
    case False
    have e: "i + g - 1 = (q + 1) * g + (r - 1)" using i False by simp
    have "((q + 1) * g + (r - 1)) div g = (q + 1) + (r - 1) div g"
      using assms by (simp only: div_mult_self3)
    then have "(i + g - 1) div g = q + 1" using r unfolding e by simp
    then show ?thesis using False r by (simp add: q_def r_def)
  qed
qed

lemma ceil_step_int:
  assumes "0 < (g::nat)"
  shows "int ((i + g) div g) - int ((i + g - 1) div g) = (if i mod g = 0 then 1 else 0)"
proof -
  have "(i + g) div g = i div g + 1" using assms by (subst div_add_self2) simp_all
  then show ?thesis using assms ceil_step [OF assms, of i] by simp
qed

text \<open>The number of group separators printed for the bytes with index i .. i+n-1.\<close>

lemma hexloop_uncolored_pad:
  assumes "1 \<le> groupsize cfg"
  shows "snd (hexloop_uncolored cfg i buf x)
           = x - (int ((i + length buf + groupsize cfg - 1) div groupsize cfg)
                  - int ((i + groupsize cfg - 1) div groupsize cfg))
         \<and> int (columns (fst (hexloop_uncolored cfg i buf x)))
           = 2 * int (length buf) + (int ((i + length buf + groupsize cfg - 1) div groupsize cfg)
                  - int ((i + groupsize cfg - 1) div groupsize cfg))"
proof (induction buf arbitrary: i x)
  case Nil
  show ?case by simp
next
  case (Cons ch rest)
  let ?g = "groupsize cfg"
  have g: "0 < ?g" using assms by simp
  have step: "int ((i + ?g) div ?g) - int ((i + ?g - 1) div ?g) = (if i mod ?g = 0 then 1 else 0)"
    by (rule ceil_step_int [OF g])
  have ih: "snd (hexloop_uncolored cfg (Suc i) rest y)
           = y - (int ((Suc i + length rest + ?g - 1) div ?g) - int ((Suc i + ?g - 1) div ?g))"
       "int (columns (fst (hexloop_uncolored cfg (Suc i) rest y)))
           = 2 * int (length rest) + (int ((Suc i + length rest + ?g - 1) div ?g)
                  - int ((Suc i + ?g - 1) div ?g))" for y
    using Cons.IH [of "Suc i" y] by simp_all
  have e1: "Suc i + length rest + ?g - 1 = i + length (ch # rest) + ?g - 1" by simp
  have e2: "Suc i + ?g - 1 = i + ?g" by simp
  show ?case
    using step unfolding e1 [symmetric]
    by (auto simp add: split_beta ih e2 columns_append columns_hex2 simp del: of_nat_diff split: if_splits)
qed




lemma hexloop_colored_pad:
  assumes "1 \<le> groupsize cfg"
  shows "hexloop_colored cfg i buf x c = Some (out, x', c') \<Longrightarrow>
         x' = x - (int ((i + length buf + groupsize cfg - 1) div groupsize cfg)
                  - int ((i + groupsize cfg - 1) div groupsize cfg))
         \<and> int (columns out)
           = 2 * int (length buf) + (int ((i + length buf + groupsize cfg - 1) div groupsize cfg)
                  - int ((i + groupsize cfg - 1) div groupsize cfg))"
proof (induction buf arbitrary: i x c out x' c')
  case Nil
  then show ?case by simp
next
  case (Cons ch rest)
  let ?g = "groupsize cfg"
  have g: "0 < ?g" using assms by simp
  have step: "int ((i + ?g) div ?g) - int ((i + ?g - 1) div ?g) = (if i mod ?g = 0 then 1 else 0)"
    by (rule ceil_step_int [OF g])
  have e1: "Suc i + length rest + ?g - 1 = i + length (ch # rest) + ?g - 1" by simp
  have e2: "Suc i + ?g - 1 = i + ?g" by simp
  let ?x1 = "if i mod ?g = 0 then x - 1 else x"
  from Cons.prems obtain c1 out1 where
      a: "assigncolor ch c = Some c1"
  and r: "hexloop_colored cfg (Suc i) rest ?x1 c1 = Some (out1, x', c')"
  and o: "out = (if i mod ?g = 0 then [Out 32] else []) @ Setaf (palette c1 ch) # hex2 ch @ out1"
    by (auto split: option.splits if_splits)
  from Cons.IH [OF r] have
      ih1: "x' = ?x1 - (int ((Suc i + length rest + ?g - 1) div ?g) - int ((Suc i + ?g - 1) div ?g))"
  and ih2: "int (columns out1) = 2 * int (length rest)
              + (int ((Suc i + length rest + ?g - 1) div ?g) - int ((Suc i + ?g - 1) div ?g))"
    by simp_all
  show ?case
    using step ih1 ih2 unfolding e1 [symmetric] o
    by (auto simp add: e2 columns_append columns_hex2 simp del: of_nat_diff split: if_splits)
qed

lemma ceil_mono: "n \<le> (l::nat) \<Longrightarrow> (n + g - 1) div g \<le> (l + g - 1) div g"
  by (intro div_le_mono) simp

lemma pad_nonneg:
  assumes "valid_settings cfg" "linesize cfg + groupsize cfg < 2 ^ 31" "length buf \<le> linesize cfg"
  shows "hexwidth cfg = 2 * int (linesize cfg)
                        + int ((linesize cfg + groupsize cfg - 1) div groupsize cfg)"
    and "0 \<le> hexwidth cfg - 2 * int (length buf)
                        - int ((length buf + groupsize cfg - 1) div groupsize cfg)"
proof -
  show w: "hexwidth cfg = 2 * int (linesize cfg)
                        + int ((linesize cfg + groupsize cfg - 1) div groupsize cfg)"
    using assms calc_hexwidth_exact [of "linesize cfg" "groupsize cfg"]
    by (simp add: valid_settings_def del: of_nat_diff)
  have "int ((length buf + groupsize cfg - 1) div groupsize cfg)
          \<le> int ((linesize cfg + groupsize cfg - 1) div groupsize cfg)"
    using ceil_mono [OF assms(3), of "groupsize cfg"] by (simp del: of_nat_diff)
  then show "0 \<le> hexwidth cfg - 2 * int (length buf)
                        - int ((length buf + groupsize cfg - 1) div groupsize cfg)"
    unfolding w using assms(3) by linarith
qed

lemma calc_default: "calc_hexwidth 16 2 = 40"
  by (simp add: calc_hexwidth_def int32_def signed_divide_int_def)

lemma parsecommandline_finish_valid:
  assumes "parsecommandline_finish c0 = Some cfg" "linesize c0 \<le> 255" "groupsize c0 < 2 ^ 31"
  shows "valid_settings cfg"
  using assms
  by (auto simp: parsecommandline_finish_def valid_settings_def Let_def split: if_splits)

lemma hexdigit_not_space: "d < 16 \<Longrightarrow> hexdigit d \<noteq> 32"
proof -
  assume d: "d < 16"
  have "unat (of_nat (48 + d) :: byte) = 48 + d" "unat (of_nat (55 + d) :: byte) = 55 + d"
    using d by (simp_all only: unat_of_nat) simp_all
  then have "unat (hexdigit d) = (if d < 10 then 48 + d else 55 + d)"
    by (simp only: hexdigit_def split: if_splits) simp
  then have "unat (hexdigit d) \<noteq> 32" by (simp split: if_splits)
  then show ?thesis by auto
qed

lemma hex2_last: "hex2 ch \<noteq> [] \<and> last (hex2 ch) = Out (hexdigit (unat ch mod 16))"
  by (simp add: hex2_def)

lemma hexloop_uncolored_last:
  "buf \<noteq> [] \<Longrightarrow>
     fst (hexloop_uncolored cfg i buf x) \<noteq> []
     \<and> last (fst (hexloop_uncolored cfg i buf x)) = Out (hexdigit (unat (last buf) mod 16))"
proof (induction buf arbitrary: i x)
  case Nil
  then show ?case by simp
next
  case (Cons ch rest)
  show ?case
  proof (cases "rest = []")
    case True
    then show ?thesis by (simp add: hex2_def)
  next
    case False
    from Cons.IH [OF False] False show ?thesis
      by (simp add: split_beta)
  qed
qed

lemma hexloop_colored_last:
  "buf \<noteq> [] \<Longrightarrow> hexloop_colored cfg i buf x c = Some (out, x', c') \<Longrightarrow>
     out \<noteq> [] \<and> last out = Out (hexdigit (unat (last buf) mod 16))"
proof (induction buf arbitrary: i x c out x' c')
  case Nil
  then show ?case by simp
next
  case (Cons ch rest)
  show ?case
  proof (cases "rest = []")
    case True
    with Cons.prems(2) show ?thesis by (auto simp: hex2_def split: option.splits if_splits)
  next
    case False
    from Cons.prems(2) obtain c1 out1 x1 where
      r: "hexloop_colored cfg (i + 1) rest x1 c1 = Some (out1, x', c')"
      and o: "\<exists>pre. out = pre @ out1"
      by (auto split: option.splits if_splits)
    from Cons.IH [OF False r] o False show ?thesis by auto
  qed
qed

section \<open>The dump loops produce the lines of the byte stream\<close>

declare plain_events.simps [simp del] held_events.simps [simp del]
  dumpfiles_fill.simps [simp del] dumpfiles_loop.simps [simp del]
  autoskip_fill.simps [simp del] dumpfileswithautoskip_loop.simps [simp del]
  dump_skip.simps [simp del] nextbyte.simps [simp del] inputinit.simps [simp del]
  dumpzerolines_loop.simps [simp del]

lemma emit_append:
  "emit cfg (a @ b) c =
     (case emit cfg a c of
        None \<Rightarrow> None
      | Some (o1, c1) \<Rightarrow>
         (case emit cfg b c1 of None \<Rightarrow> None | Some (o2, c2) \<Rightarrow> Some (o1 @ o2, c2)))"
proof (induction a arbitrary: c)
  case Nil
  show ?case by (simp split: option.splits)
next
  case (Cons e a)
  show ?case by (cases e) (simp_all add: Cons.IH split: option.splits)
qed

lemma dumpline_take: "count \<le> length buf \<Longrightarrow>
    dumpline cfg buf count pos c = dumpline cfg (take count buf) (length (take count buf)) pos c"
  by (simp add: dumpline_def)

lemma emit_Line: "emit cfg [Line buf pos] c = dumpline cfg buf (length buf) pos c"
  by (simp split: option.splits)

lemma instream_maxinputlen [simp]: "instream (s\<lparr>maxinputlen := m\<rparr>) = instream s"
  by (simp add: instream_def split: option.splits handle.splits)

text \<open>The inner loop reads the next bytes of the stream, as many as the line and the limit allow.\<close>

lemma dumpfiles_fill_stream:
  assumes "dumpfiles_fill cfg n0 ch line s = (n, ch', line', s')"
  shows "let xs = take (maxinputlen s) (instream s); k = min (linesize cfg - n0) (length xs)
         in n = n0 + k
          \<and> take (maxinputlen s') (instream s') = drop k xs
          \<and> length line' = length line
          \<and> (n0 + k \<le> length line \<longrightarrow> take n line' = take n0 line @ take k xs)
          \<and> (ch \<noteq> None \<longrightarrow> ch' = None \<longrightarrow> drop k xs = [])"
  using assms
proof (induction cfg n0 ch line s rule: dumpfiles_fill.induct)
  case (1 cfg n0 ch line s)
  let ?xs = "take (maxinputlen s) (instream s)"
  show ?case
  proof (cases "n0 < linesize cfg \<and> 0 < maxinputlen s")
    case False
    then have "min (linesize cfg - n0) (length ?xs) = 0" by auto
    moreover have "n = n0" "ch' = ch" "line' = line" "s' = s" 
      using "1.prems" False by (simp_all add: dumpfiles_fill.simps)
    ultimately show ?thesis using False by (auto simp: Let_def)
  next
    case True
    obtain r s1 where nb: "nextbyte s = (r, s1)" by (cases "nextbyte s")
    note st = nextbyte_stream [OF nb]
    show ?thesis
    proof (cases r)
      case None
      then have "instream s = []" "instream s1 = []" using st by simp_all
      moreover have "n = n0" "ch' = None" "line' = line" "s' = s1"
        using "1.prems" True nb None by (simp_all add: dumpfiles_fill.simps)
      ultimately show ?thesis by (simp add: Let_def)
    next
      case (Some b)
      let ?s2 = "s1\<lparr>maxinputlen := maxinputlen s1 - 1\<rparr>"
      have rc: "dumpfiles_fill cfg (n0 + 1) (Some b) (line[n0 := b]) ?s2 = (n, ch', line', s')"
        using "1.prems" True nb Some by (simp add: dumpfiles_fill.simps)
      have ios: "instream s = b # instream s1" and m1: "maxinputlen s1 = maxinputlen s"
        using st Some by simp_all
      obtain m where m: "maxinputlen s = Suc m" using True by (cases "maxinputlen s") auto
      let ?xs1 = "take (maxinputlen ?s2) (instream ?s2)"
      have x1: "?xs1 = take m (instream s1)" using m m1 by simp
      have xs: "?xs = b # ?xs1" using ios m x1 by simp
      let ?k1 = "min (linesize cfg - (n0 + 1)) (length ?xs1)"
      have k: "min (linesize cfg - n0) (length ?xs) = Suc ?k1" using True xs by auto
      from "1.IH" [OF True nb [symmetric] Some rc]
      have ih0: "n = n0 + 1 + ?k1
          \<and> take (maxinputlen s') (instream s') = drop ?k1 ?xs1
          \<and> length line' = length (line[n0 := b])
          \<and> (n0 + 1 + ?k1 \<le> length (line[n0 := b]) \<longrightarrow> take n line' = take (n0 + 1) (line[n0 := b]) @ take ?k1 ?xs1)
          \<and> (Some b \<noteq> None \<longrightarrow> ch' = None \<longrightarrow> drop ?k1 ?xs1 = [])"
        unfolding Let_def .
      note i1 = ih0 [THEN conjunct1]
       and i2 = ih0 [THEN conjunct2, THEN conjunct1]
       and i3 = ih0 [THEN conjunct2, THEN conjunct2, THEN conjunct1]
       and i4 = ih0 [THEN conjunct2, THEN conjunct2, THEN conjunct2, THEN conjunct1, rule_format]
       and i5 = ih0 [THEN conjunct2, THEN conjunct2, THEN conjunct2, THEN conjunct2, rule_format]
      have i3': "length line' = length line" using i3 by simp
      have i5': "ch' = None \<Longrightarrow> drop ?k1 ?xs1 = []" using i5 by blast
      have t: "n0 < length line \<Longrightarrow> take (n0 + 1) (line[n0 := b]) = take n0 line @ [b]"
        by (simp add: take_Suc_conv_app_nth)
      have l: "take n line' = take n0 line @ b # take ?k1 ?xs1" if "n0 + Suc ?k1 \<le> length line"
      proof -
        from that have "n0 + 1 + ?k1 \<le> length (line[n0 := b])" by simp
        from i4 [OF this] have "take n line' = take (n0 + 1) (line[n0 := b]) @ take ?k1 ?xs1" .
        moreover have "n0 < length line" using that by simp
        ultimately show ?thesis using t by simp
      qed
      have n: "n = n0 + Suc ?k1" using i1 by simp
      show ?thesis
        unfolding Let_def k unfolding xs
        using n i2 i3' i5' l by simp

    qed
  qed
qed

lemma rendered_simps [simp]:
  "rendered None = None" "rendered (Some (out, c, s)) = Some (out, c)"
  by (simp_all add: rendered_def)

lemma rendered_case:
  "rendered (case r of None \<Rightarrow> None | Some (out', c2, s2) \<Rightarrow> Some (f out', c2, s2))
     = (case rendered r of None \<Rightarrow> None | Some (out', c2) \<Rightarrow> Some (f out', c2))"
  by (cases r) auto

lemma take_min_left: "take (min L (length xs)) xs = take L xs"
  by (simp add: min_def)

lemma drop_min_left: "drop (min L (length xs)) xs = drop L xs"
  by (simp add: min_def)

lemma dumpfiles_loop_events:
  assumes "1 \<le> linesize cfg" "linesize cfg \<le> length line"
      and "ch = None \<longrightarrow> take (maxinputlen s) (instream s) = []"
  shows "rendered (dumpfiles_loop cfg ch line s pos c)
           = emit cfg (plain_events (linesize cfg) pos (take (maxinputlen s) (instream s))) c"
  using assms
proof (induction cfg ch line s pos c rule: dumpfiles_loop.induct)
  case (1 cfg ch line s pos c)
  define L where "L = linesize cfg"
  define xs where "xs = take (maxinputlen s) (instream s)"
  have L1: "1 \<le> L" and Ll: "L \<le> length line" using "1.prems" by (simp_all add: L_def)
  show ?case
  proof (cases "ch \<noteq> None \<and> 0 < maxinputlen s")
    case False
    then have "xs = []" using "1.prems"(3) by (auto simp: xs_def)
    then show ?thesis using False unfolding xs_def
      by (auto simp: dumpfiles_loop.simps [of cfg ch line s] plain_events.simps)
  next
    case True
    obtain n ch1 line1 s1 where f: "dumpfiles_fill cfg 0 ch line s = (n, ch1, line1, s1)"
      by (cases "dumpfiles_fill cfg 0 ch line s") auto
    define k where "k = min (L - 0) (length xs)"
    from dumpfiles_fill_stream [OF f]
    have fs: "n = 0 + k \<and> take (maxinputlen s1) (instream s1) = drop k xs
          \<and> length line1 = length line
          \<and> (0 + k \<le> length line \<longrightarrow> take n line1 = take 0 line @ take k xs)
          \<and> (ch \<noteq> None \<longrightarrow> ch1 = None \<longrightarrow> drop k xs = [])"
      unfolding Let_def k_def xs_def L_def .
    have k: "k = min L (length xs)" by (simp add: k_def)
    have n: "n = min L (length xs)" using fs k by simp
    have "take (maxinputlen s1) (instream s1) = drop k xs" using fs by blast
    then have x1: "take (maxinputlen s1) (instream s1) = drop L xs"
      unfolding k by (simp only: drop_min_left)
    have ll: "length line1 = length line" using fs by simp
    have "k \<le> length line" using k Ll by simp
    then have "take n line1 = take k xs" using fs by auto
    then have tl: "take n line1 = take L xs" unfolding k by (simp only: take_min_left)
    have "ch1 = None \<longrightarrow> drop k xs = []" using fs True by blast
    then have c1: "ch1 = None \<longrightarrow> take (maxinputlen s1) (instream s1) = []"
      unfolding x1 k by (simp only: drop_min_left)
    show ?thesis
    proof (cases "n = 0")
      case n0: True
      then have "xs = []" using n L1 by (cases xs) (auto simp: min_def split: if_splits)
      then show ?thesis using True f n0 unfolding xs_def
        by (simp add: dumpfiles_loop.simps [of cfg ch line s] plain_events.simps)
    next
      case n0: False
      then have ne: "xs \<noteq> []" using n by (cases xs) auto
      have nl: "n \<le> length line1" using n ll Ll by simp
      have lt: "length (take L xs) = n" using n by (simp add: min.commute)
      have dl: "dumpline cfg line1 n pos c = dumpline cfg (take L xs) (length (take L xs)) pos c"
        using dumpline_take [OF nl, of cfg pos c] tl lt by simp
      have pe: "plain_events L pos xs
                  = Line (take L xs) pos # plain_events L (pos + int n) (drop L xs)"
        using ne L1 lt by (subst plain_events.simps) simp
      show ?thesis
      proof (cases "dumpline cfg line1 n pos c")
        case None
        then show ?thesis using True f n0 dl pe unfolding xs_def [symmetric] L_def [symmetric]
          by (simp add: dumpfiles_loop.simps [of cfg ch line s])
      next
        case (Some r)
        obtain out c1' where r: "r = (out, c1')" by (cases r)
        have "rendered (dumpfiles_loop cfg ch1 line1 s1 (pos + int n) c1')
           = emit cfg (plain_events (linesize cfg) (pos + int n) (take (maxinputlen s1) (instream s1))) c1'"
          using "1.IH" [OF True f [symmetric] refl refl n0 Some [unfolded r] refl "1.prems"(1) _ c1]
                "1.prems"(2) ll by simp
        then have ih: "rendered (dumpfiles_loop cfg ch1 line1 s1 (pos + int n) c1')
           = emit cfg (plain_events L (pos + int n) (drop L xs)) c1'"
          unfolding x1 L_def .
        have lhs: "dumpfiles_loop cfg ch line s pos c
                     = (case dumpfiles_loop cfg ch1 line1 s1 (pos + int n) c1' of
                          None \<Rightarrow> None
                        | Some (out', c2, s2) \<Rightarrow> Some (out @ out', c2, s2))"
          using True f n0 Some r by (simp add: dumpfiles_loop.simps [of cfg ch line s])
        have rhs: "emit cfg (plain_events L pos xs) c
                     = (case emit cfg (plain_events L (pos + int n) (drop L xs)) c1' of
                          None \<Rightarrow> None
                        | Some (out', c2) \<Rightarrow> Some (out @ out', c2))"
          using Some r dl unfolding pe by simp
        show ?thesis
          unfolding xs_def [symmetric] L_def [symmetric] lhs rhs rendered_case ih ..
      qed
    qed
  qed
qed

lemma autoskip_fill_stream:
  assumes "autoskip_fill cfg n0 nz ch line s = (n, nz', ch', line', s')"
  shows "let xs = take (maxinputlen s) (instream s); k = min (linesize cfg - n0) (length xs)
         in n = n0 + k
          \<and> take (maxinputlen s') (instream s') = drop k xs
          \<and> length line' = length line
          \<and> (n0 + k \<le> length line \<longrightarrow> take n line' = take n0 line @ take k xs)
          \<and> (ch \<noteq> None \<longrightarrow> ch' = None \<longrightarrow> drop k xs = [])
          \<and> (k = 0 \<longrightarrow> line' = line)
          \<and> (nz' = 0 \<longleftrightarrow> nz = 0 \<and> (\<forall>b \<in> set (take k xs). b = 0))"
  using assms
proof (induction cfg n0 nz ch line s rule: autoskip_fill.induct)
  case (1 cfg n0 nz ch line s)
  let ?xs = "take (maxinputlen s) (instream s)"
  show ?case
  proof (cases "n0 < linesize cfg \<and> 0 < maxinputlen s")
    case False
    then have "min (linesize cfg - n0) (length ?xs) = 0" by auto
    moreover have "n = n0" "ch' = ch" "line' = line" "s' = s" "nz' = nz"
      using "1.prems" False by (simp_all add: autoskip_fill.simps)
    ultimately show ?thesis using False by (auto simp: Let_def)
  next
    case True
    obtain r s1 where nb: "nextbyte s = (r, s1)" by (cases "nextbyte s")
    note st = nextbyte_stream [OF nb]
    show ?thesis
    proof (cases r)
      case None
      then have "instream s = []" "instream s1 = []" using st by simp_all
      moreover have "n = n0" "ch' = None" "line' = line" "s' = s1" "nz' = nz"
        using "1.prems" True nb None by (simp_all add: autoskip_fill.simps)
      ultimately show ?thesis by (simp add: Let_def)
    next
      case (Some b)
      let ?s2 = "s1\<lparr>maxinputlen := maxinputlen s1 - 1\<rparr>"
      have rc: "autoskip_fill cfg (n0 + 1) (nz OR b) (Some b) (line[n0 := b]) ?s2 = (n, nz', ch', line', s')"
        using "1.prems" True nb Some by (simp add: autoskip_fill.simps)
      have ios: "instream s = b # instream s1" and m1: "maxinputlen s1 = maxinputlen s"
        using st Some by simp_all
      obtain m where m: "maxinputlen s = Suc m" using True by (cases "maxinputlen s") auto
      let ?xs1 = "take (maxinputlen ?s2) (instream ?s2)"
      have x1: "?xs1 = take m (instream s1)" using m m1 by simp
      have xs: "?xs = b # ?xs1" using ios m x1 by simp
      let ?k1 = "min (linesize cfg - (n0 + 1)) (length ?xs1)"
      have k: "min (linesize cfg - n0) (length ?xs) = Suc ?k1" using True xs by auto
      from "1.IH" [OF True nb [symmetric] Some rc]
      have ih0: "n = n0 + 1 + ?k1
          \<and> take (maxinputlen s') (instream s') = drop ?k1 ?xs1
          \<and> length line' = length (line[n0 := b])
          \<and> (n0 + 1 + ?k1 \<le> length (line[n0 := b]) \<longrightarrow> take n line' = take (n0 + 1) (line[n0 := b]) @ take ?k1 ?xs1)
          \<and> (Some b \<noteq> None \<longrightarrow> ch' = None \<longrightarrow> drop ?k1 ?xs1 = [])
          \<and> (?k1 = 0 \<longrightarrow> line' = line[n0 := b])
          \<and> (nz' = 0 \<longleftrightarrow> nz OR b = 0 \<and> (\<forall>b \<in> set (take ?k1 ?xs1). b = 0))"
        unfolding Let_def .
      note i1 = ih0 [THEN conjunct1]
       and i2 = ih0 [THEN conjunct2, THEN conjunct1]
       and i3 = ih0 [THEN conjunct2, THEN conjunct2, THEN conjunct1]
       and i4 = ih0 [THEN conjunct2, THEN conjunct2, THEN conjunct2, THEN conjunct1, rule_format]
       and i5 = ih0 [THEN conjunct2, THEN conjunct2, THEN conjunct2, THEN conjunct2, THEN conjunct1, rule_format]
       and i7 = ih0 [THEN conjunct2, THEN conjunct2, THEN conjunct2, THEN conjunct2, THEN conjunct2, THEN conjunct2]
      have i3': "length line' = length line" using i3 by simp
      have i5': "ch' = None \<Longrightarrow> drop ?k1 ?xs1 = []" using i5 by blast
      have i7': "nz' = 0 \<longleftrightarrow> nz = 0 \<and> (\<forall>x \<in> set (b # take ?k1 ?xs1). x = 0)"
        using i7 by (auto simp: or_eq_0_iff)
      have t: "n0 < length line \<Longrightarrow> take (n0 + 1) (line[n0 := b]) = take n0 line @ [b]"
        by (simp add: take_Suc_conv_app_nth)
      have l: "take n line' = take n0 line @ b # take ?k1 ?xs1" if "n0 + Suc ?k1 \<le> length line"
      proof -
        from that have "n0 + 1 + ?k1 \<le> length (line[n0 := b])" by simp
        from i4 [OF this] have "take n line' = take (n0 + 1) (line[n0 := b]) @ take ?k1 ?xs1" .
        moreover have "n0 < length line" using that by simp
        ultimately show ?thesis using t by simp
      qed
      have n: "n = n0 + Suc ?k1" using i1 by simp
      show ?thesis
        unfolding Let_def k unfolding xs
        using n i2 i3' i5' l i7' by simp
    qed
  qed
qed

lemma take_zeroline: "L \<le> 256 \<Longrightarrow> take L zeroline = replicate L 0"
  by (simp add: zeroline_def min_def)

lemma dumpline_zeroline:
  "L \<le> 256 \<Longrightarrow> dumpline cfg zeroline L pos c = dumpline cfg (replicate L 0) (length (replicate L (0::byte))) pos c"
  using dumpline_take [of L zeroline cfg pos c] by (simp add: take_zeroline) (simp add: zeroline_def)

lemma dumpzerolines_loop_events:
  "linesize cfg \<le> 256 \<Longrightarrow> dumpzerolines_loop cfg i count pos c
     = emit cfg (map (\<lambda>i. Line (replicate (linesize cfg) 0) (pos + int i * int (linesize cfg))) [i..<count]) c"
proof (induction cfg i count pos c rule: dumpzerolines_loop.induct)
  case (1 cfg i count pos c)
  show ?case
  proof (cases "i < count")
    case False
    then show ?thesis by (simp add: dumpzerolines_loop.simps [of cfg i])
  next
    case True
    have u: "[i..<count] = i # [i + 1..<count]" using True by (simp add: upt_rec)
    have d: "dumpline cfg zeroline (linesize cfg) (pos + int i * int (linesize cfg)) c
           = dumpline cfg (replicate (linesize cfg) 0) (length (replicate (linesize cfg) (0::byte)))
                (pos + int i * int (linesize cfg)) c"
      by (rule dumpline_zeroline [OF "1.prems"])
    let ?rest = "map (\<lambda>i. Line (replicate (linesize cfg) 0) (pos + int i * int (linesize cfg))) [i + 1..<count]"
    have rhs: "emit cfg (Line (replicate (linesize cfg) 0) (pos + int i * int (linesize cfg)) # ?rest) c
        = (case dumpline cfg zeroline (linesize cfg) (pos + int i * int (linesize cfg)) c of
             None \<Rightarrow> None
           | Some (out, c1) \<Rightarrow>
              (case emit cfg ?rest c1 of
                 None \<Rightarrow> None
               | Some (out', c2) \<Rightarrow> Some (out @ out', c2)))"
      by (simp only: emit.simps d)
    show ?thesis
    proof (cases "dumpline cfg zeroline (linesize cfg) (pos + int i * int (linesize cfg)) c")
      case None
      then show ?thesis using True unfolding u list.map rhs
        by (simp add: dumpzerolines_loop.simps [of cfg i])
    next
      case (Some r)
      obtain out c1 where r: "r = (out, c1)" by (cases r)
      note ih = "1.IH" [OF True Some [unfolded r] refl "1.prems"]
      show ?thesis using True Some r ih unfolding u list.map rhs
        by (simp add: dumpzerolines_loop.simps [of cfg i])
    qed
  qed
qed

lemma dumpzerolines_events:
  assumes "linesize cfg \<le> 256"
  shows "dumpzerolines cfg count pos c = emit cfg (zero_events (linesize cfg) count pos) c"
proof (cases "count > 2")
  case True
  have "emit cfg [Line (replicate (linesize cfg) 0) pos, Marker] c
          = (case dumpline cfg zeroline (linesize cfg) pos c of
               None \<Rightarrow> None
             | Some (out, c1) \<Rightarrow>
                 (case emit cfg [Marker] c1 of
                    None \<Rightarrow> None
                  | Some (out', c2) \<Rightarrow> Some (out @ out', c2)))"
    by (simp only: emit.simps dumpline_zeroline [OF assms])
  then show ?thesis using True
    by (simp add: dumpzerolines_def zero_events_def split: option.splits)
next
  case False
  then show ?thesis
    using dumpzerolines_loop_events [OF assms, of 0 count pos c]
    by (simp add: dumpzerolines_def zero_events_def)
qed

lemma autoskip_flush_events:
  assumes "linesize cfg \<le> 256"
      and "linesheld \<noteq> 0 \<longrightarrow> lastheldsize \<le> length line \<and> take lastheldsize line = replicate lastheldsize 0"
  shows "rendered (autoskip_flush cfg line s pos linesheld lastheldsize holdpos c)
       = emit cfg (if linesheld \<noteq> 0
                   then zero_events (linesize cfg) (linesheld - 1) holdpos
                        @ [Line (replicate lastheldsize 0) (pos - int lastheldsize)]
                   else []) c"
proof (cases "linesheld = 0")
  case True
  then show ?thesis by (simp add: autoskip_flush_def)
next
  case False
  then have l: "lastheldsize \<le> length line" and t: "take lastheldsize line = replicate lastheldsize 0"
    using assms(2) by simp_all
  have d: "dumpline cfg line lastheldsize p c' 
         = emit cfg [Line (replicate lastheldsize 0) p] c'" for p c'
    using dumpline_take [OF l, of cfg p c'] unfolding t emit_Line .
  have r: "emit cfg (zero_events (linesize cfg) (linesheld - 1) holdpos
                      @ [Line (replicate lastheldsize 0) (pos - int lastheldsize)]) c
         = (case dumpzerolines cfg (linesheld - 1) holdpos c of
              None \<Rightarrow> None
            | Some (out, c1) \<Rightarrow>
               (case dumpline cfg line lastheldsize (pos - int lastheldsize) c1 of
                  None \<Rightarrow> None
                | Some (out', c2) \<Rightarrow> Some (out @ out', c2)))"
    unfolding emit_append dumpzerolines_events [OF assms(1)] d ..
  have "rendered (autoskip_flush cfg line s pos linesheld lastheldsize holdpos c)
         = (case dumpzerolines cfg (linesheld - 1) holdpos c of
              None \<Rightarrow> None
            | Some (out, c1) \<Rightarrow>
               (case dumpline cfg line lastheldsize (pos - int lastheldsize) c1 of
                  None \<Rightarrow> None
                | Some (out', c2) \<Rightarrow> Some (out @ out', c2)))"
    using False by (simp add: autoskip_flush_def split: option.splits)
  then show ?thesis using False r by simp
qed

lemma all_zero_replicate: "\<forall>b \<in> set xs. b = (0::byte) \<Longrightarrow> xs = replicate (length xs) 0"
  by (induction xs) auto

lemma dumpfileswithautoskip_loop_events:
  assumes "1 \<le> linesize cfg" "linesize cfg \<le> 256" "linesize cfg \<le> length line"
      and "ch = None \<longrightarrow> take (maxinputlen s) (instream s) = []"
      and "linesheld \<noteq> 0 \<longrightarrow> lastheldsize \<le> length line \<and> take lastheldsize line = replicate lastheldsize 0"
  shows "rendered (dumpfileswithautoskip_loop cfg ch line s pos linesheld lastheldsize holdpos c)
           = emit cfg (held_events (linesize cfg) pos linesheld lastheldsize holdpos
                         (take (maxinputlen s) (instream s))) c"
  using assms
proof (induction cfg ch line s pos linesheld lastheldsize holdpos c
         rule: dumpfileswithautoskip_loop.induct)
  case (1 cfg ch line s pos lh lhs hp c)
  define L where "L = linesize cfg"
  define xs where "xs = take (maxinputlen s) (instream s)"
  have L1: "1 \<le> L" and L256: "L \<le> 256" and Ll: "L \<le> length line"
    using "1.prems" by (simp_all add: L_def)
  note inv = "1.prems"(5)
  have fl: "rendered (autoskip_flush cfg line s' pos lh lhs hp c)
       = emit cfg (held_events L pos lh lhs hp []) c" for s'
    using autoskip_flush_events [OF "1.prems"(2) inv, of s' pos hp c]
    by (simp add: held_events.simps [of "linesize cfg" pos lh lhs hp "[]"] L_def)
  show ?case
  proof (cases "ch \<noteq> None \<and> 0 < maxinputlen s")
    case False
    then have "xs = []" using "1.prems"(4) by (auto simp: xs_def)
    then show ?thesis using False fl [of s] unfolding xs_def L_def
      by (auto simp: dumpfileswithautoskip_loop.simps [of cfg ch line s])
  next
    case True
    obtain n nz ch1 line1 s1 where f: "autoskip_fill cfg 0 0 ch line s = (n, nz, ch1, line1, s1)"
      by (cases "autoskip_fill cfg 0 0 ch line s") auto
    define k where "k = min (L - 0) (length xs)"
    from autoskip_fill_stream [OF f]
    have fs: "n = 0 + k \<and> take (maxinputlen s1) (instream s1) = drop k xs
          \<and> length line1 = length line
          \<and> (0 + k \<le> length line \<longrightarrow> take n line1 = take 0 line @ take k xs)
          \<and> (ch \<noteq> None \<longrightarrow> ch1 = None \<longrightarrow> drop k xs = [])
          \<and> (k = 0 \<longrightarrow> line1 = line)
          \<and> (nz = 0 \<longleftrightarrow> (0::byte) = 0 \<and> (\<forall>b \<in> set (take k xs). b = 0))"
      unfolding Let_def k_def xs_def L_def .
    have k: "k = min L (length xs)" by (simp add: k_def)
    have n: "n = min L (length xs)" using fs k by simp
    have "take (maxinputlen s1) (instream s1) = drop k xs" using fs by blast
    then have x1: "take (maxinputlen s1) (instream s1) = drop L xs"
      unfolding k by (simp only: drop_min_left)
    have ll: "length line1 = length line" using fs by simp
    have "k \<le> length line" using k Ll by simp
    then have "take n line1 = take k xs" using fs by auto
    then have tl: "take n line1 = take L xs" unfolding k by (simp only: take_min_left)
    have "ch1 = None \<longrightarrow> drop k xs = []" using fs True by blast
    then have c1: "ch1 = None \<longrightarrow> take (maxinputlen s1) (instream s1) = []"
      unfolding x1 k by (simp only: drop_min_left)
    have "nz = 0 \<longleftrightarrow> (\<forall>b \<in> set (take k xs). b = 0)" using fs by blast
    then have nz: "nz \<noteq> 0 \<longleftrightarrow> (\<exists>b \<in> set (take L xs). b \<noteq> 0)"
      unfolding k by (simp only: take_min_left) blast
    have k0: "k = 0 \<Longrightarrow> line1 = line" using fs by blast
    show ?thesis
    proof (cases "n = 0")
      case n0: True
      then have e: "xs = []" using n L1 by (cases xs) (auto simp: min_def split: if_splits)
      then have "line1 = line" using k0 k by simp
      then show ?thesis using True f n0 fl [of s1] e unfolding xs_def [symmetric] L_def [symmetric]
        by (simp add: dumpfileswithautoskip_loop.simps [of cfg ch line s])
    next
      case n0: False
      then have ne: "xs \<noteq> []" using n by (cases xs) auto
      have nl: "n \<le> length line1" using n ll Ll by simp
      have lt: "length (take L xs) = n" using n by (simp add: min.commute)
      have dl: "dumpline cfg line1 n pos c' = emit cfg [Line (take L xs) pos] c'" for c'
        using dumpline_take [OF nl, of cfg pos c'] unfolding tl emit_Line .
      show ?thesis
      proof (cases "nz \<noteq> 0")
        case z: False
        then have az: "\<not> (\<exists>b \<in> set (take L xs). b \<noteq> 0)" using nz by blast
        have he: "held_events L pos lh lhs hp xs
                = held_events L (pos + int n) (lh + 1) n (if lh = 0 then pos else hp) (drop L xs)"
          using ne L1 az lt by (subst held_events.simps) simp
        have "take L xs = replicate (length (take L xs)) 0"
          using az by (intro all_zero_replicate) blast
        then have zl: "take n line1 = replicate n 0" using tl lt by simp
        have ih: "rendered (dumpfileswithautoskip_loop cfg ch1 line1 s1 (pos + int n) (lh + 1) n
                     (if lh = 0 then pos else hp) c)
            = emit cfg (held_events (linesize cfg) (pos + int n) (lh + 1) n (if lh = 0 then pos else hp)
                         (take (maxinputlen s1) (instream s1))) c"
          using "1.IH"(2) [OF True f [symmetric] refl refl refl n0 z "1.prems"(1,2) _ c1]
                "1.prems"(3) ll nl zl by simp
        have lhs: "dumpfileswithautoskip_loop cfg ch line s pos lh lhs hp c
                 = dumpfileswithautoskip_loop cfg ch1 line1 s1 (pos + int n) (lh + 1) n
                     (if lh = 0 then pos else hp) c"
          using True f n0 z by (simp add: dumpfileswithautoskip_loop.simps [of cfg ch line s])
        show ?thesis
          unfolding xs_def [symmetric] L_def [symmetric] lhs he
          using ih unfolding x1 L_def [symmetric] .
      next
        case z: True
        then have az: "\<exists>b \<in> set (take L xs). b \<noteq> 0" using nz by blast
        let ?pre = "if lh \<noteq> 0 then zero_events L lh hp else []"
        have he: "held_events L pos lh lhs hp xs
                = ?pre @ Line (take L xs) pos # held_events L (pos + int n) 0 lhs hp (drop L xs)"
          using ne L1 az lt by (subst held_events.simps) simp
        have pre: "(if lh \<noteq> 0 then dumpzerolines cfg lh hp c else Some ([], c)) = emit cfg ?pre c"
          using dumpzerolines_events [OF "1.prems"(2), of lh hp c] by (simp add: L_def)
        show ?thesis
        proof (cases "emit cfg ?pre c")
          case None
          have "dumpfileswithautoskip_loop cfg ch line s pos lh lhs hp c = None"
            using True f n0 z pre None
            by (simp add: dumpfileswithautoskip_loop.simps [of cfg ch line s])
          then show ?thesis
            unfolding xs_def [symmetric] L_def [symmetric] he emit_append using None by simp
        next
          case (Some r0)
          obtain out0 c0 where r0: "r0 = (out0, c0)" by (cases r0)
          show ?thesis
          proof (cases "dumpline cfg line1 n pos c0")
            case None
            have "dumpfileswithautoskip_loop cfg ch line s pos lh lhs hp c = None"
              using True f n0 z pre Some r0 None
              by (simp add: dumpfileswithautoskip_loop.simps [of cfg ch line s])
            moreover have "emit cfg (Line (take L xs) pos # held_events L (pos + int n) 0 lhs hp (drop L xs)) c0 = None"
              using None dl [of c0] by (simp split: option.splits)
            ultimately show ?thesis
              unfolding xs_def [symmetric] L_def [symmetric] he emit_append using Some r0 by simp
          next
            case d: (Some r1)
            obtain out1 c1' where r1: "r1 = (out1, c1')" by (cases r1)
            have p2: "(if lh \<noteq> 0 then dumpzerolines cfg lh hp c else Some ([], c)) = Some (out0, c0)"
              using pre Some r0 by simp
            have ih: "rendered (dumpfileswithautoskip_loop cfg ch1 line1 s1 (pos + int n) 0 lhs hp c1')
               = emit cfg (held_events (linesize cfg) (pos + int n) 0 lhs hp
                         (take (maxinputlen s1) (instream s1))) c1'"
              using "1.IH"(1) [OF True f [symmetric] refl refl refl n0 z p2 refl d [unfolded r1] refl
                                "1.prems"(1,2) _ c1]
                    "1.prems"(3) ll by simp
            have lhs: "dumpfileswithautoskip_loop cfg ch line s pos lh lhs hp c
                 = (case dumpfileswithautoskip_loop cfg ch1 line1 s1 (pos + int n) 0 lhs hp c1' of
                      None \<Rightarrow> None
                    | Some (out2, c2, s2) \<Rightarrow> Some (out0 @ out1 @ out2, c2, s2))"
              using True f n0 z p2 d r1
              by (simp add: dumpfileswithautoskip_loop.simps [of cfg ch line s])
            have rhs: "emit cfg (?pre @ Line (take L xs) pos # held_events L (pos + int n) 0 lhs hp (drop L xs)) c
                 = (case emit cfg (held_events L (pos + int n) 0 lhs hp (drop L xs)) c1' of
                      None \<Rightarrow> None
                    | Some (out2, c2) \<Rightarrow> Some (out0 @ out1 @ out2, c2))"
              unfolding emit_append using Some r0 d r1 dl [of c0]
              by (simp split: option.splits)
            show ?thesis
              unfolding xs_def [symmetric] L_def [symmetric] lhs he rhs rendered_case
              using ih unfolding x1 L_def [symmetric] by simp
          qed
        qed
      qed
    qed
  qed
qed

section \<open>The dump driver\<close>

lemma dump_skip_stream:
  "dump_skip p s = (b, pos, s1) \<Longrightarrow> p \<le> startoffset s \<Longrightarrow>
     maxinputlen s1 = maxinputlen s
     \<and> (if startoffset s - p \<le> length (instream s)
         then b \<and> pos = startoffset s \<and> instream s1 = drop (startoffset s - p) (instream s)
         else \<not> b)"
proof (induction p s rule: dump_skip.induct)
  case (1 p s)
  show ?case
  proof (cases "p < startoffset s")
    case False
    with "1.prems" show ?thesis by (simp add: dump_skip.simps [of p s])
  next
    case True
    obtain r s' where nb: "nextbyte s = (r, s')" by (cases "nextbyte s")
    note st = nextbyte_stream [OF nb]
    show ?thesis
    proof (cases r)
      case None
      then have "instream s = []" using st by simp
      moreover have "\<not> b" "s1 = s'" using "1.prems" True nb None by (simp_all add: dump_skip.simps [of p s])
      ultimately show ?thesis using True st by simp
    next
      case (Some x)
      then have rc: "dump_skip (p + 1) s' = (b, pos, s1)"
        using "1.prems" True nb by (simp add: dump_skip.simps [of p s])
      have so: "startoffset s' = startoffset s" and ml: "maxinputlen s' = maxinputlen s"
        and ios: "instream s = x # instream s'" using st Some by simp_all
      have le: "p + 1 \<le> startoffset s'" using True so by simp
      obtain d where d: "startoffset s - p = Suc d" using True by (cases "startoffset s - p") auto
      then have d': "startoffset s - Suc p = d" by simp
      from "1.IH" [OF True nb [symmetric] Some rc le]
      show ?thesis by (simp add: so ml ios d d')
    qed
  qed
qed

lemma plain_events_Nil [simp]: "plain_events L pos [] = []"
  by (simp add: plain_events.simps)

lemma autoskip_events_Nil [simp]: "autoskip_events L pos [] = []"
  by (simp add: autoskip_events_def held_events.simps)

text \<open>
  The dump driver renders the lines of the bytes from \<open>startoffset\<close> on, at most
  \<open>maxinputlen\<close> of them, through the coordinator or directly.
\<close>

lemma dump_events:
  assumes "1 \<le> linesize cfg" "linesize cfg \<le> 256" "linesize cfg \<le> length line0"
  shows "rendered (dump cfg line0 s c)
       = emit cfg ((if autoskip cfg then autoskip_events else plain_events) (linesize cfg)
                     (int (startoffset s))
                     (take (maxinputlen s) (drop (startoffset s) (instream s)))) c"
proof -
  obtain b pos s1 where sk: "dump_skip 0 s = (b, pos, s1)" by (cases "dump_skip 0 s") auto
  from dump_skip_stream [OF sk]
  have ml: "maxinputlen s1 = maxinputlen s"
   and br: "if startoffset s \<le> length (instream s)
         then b \<and> pos = startoffset s \<and> instream s1 = drop (startoffset s) (instream s)
         else \<not> b" by simp_all
  show ?thesis
  proof (cases "startoffset s \<le> length (instream s)")
    case False
    then have "\<not> b" "drop (startoffset s) (instream s) = []" using br by simp_all
    then show ?thesis using sk by (simp add: dump_def)
  next
    case True
    then have b: b and p: "pos = startoffset s"
      and i1: "instream s1 = drop (startoffset s) (instream s)" using br by simp_all
    show ?thesis
    proof (cases "autoskip cfg")
      case False
      then show ?thesis
        using sk b p dumpfiles_loop_events [OF assms(1,3), of "Some 0" s1 "int pos" c]
        by (simp add: dump_def dumpfiles_def ml i1)
    next
      case True
      then show ?thesis
        using sk b p dumpfileswithautoskip_loop_events [OF assms, of "Some 0" s1 0 0 "int pos" 0 c]
        by (simp add: dump_def dumpfileswithautoskip_def autoskip_events_def ml i1)
    qed
  qed
qed

lemma inputinit_ok:
  assumes "inputs_ok s" "inputinit s = (b, s1)"
  shows "inputs_ok s1 \<and> exitcode s1 = exitcode s \<and> reported s1 = reported s"
proof (cases "currentfile s = None")
  case False
  with assms show ?thesis by (simp add: inputinit.simps [of s])
next
  case True
  show ?thesis
  proof (cases "filenames s")
    case Nil
    with True assms show ?thesis by (simp add: inputinit.simps [of s])
  next
    case (Cons name rest)
    show ?thesis
    proof (cases "name = ''-''")
      case d: True
      with True Cons assms show ?thesis
        by (auto simp: inputinit.simps [of s] inputs_ok_def)
    next
      case d: False
      then obtain f where "files s name = Some f" "readable f"
        using assms(1) True Cons by (auto simp: inputs_ok_def)
      with True Cons d assms show ?thesis
        by (auto simp: inputinit.simps [of s] inputs_ok_def)
    qed
  qed
qed

lemma fgetc_ok:
  assumes "inputs_ok s" "fgetc s = (r, s1)" "currentfile s \<noteq> None"
  shows "inputs_ok s1 \<and> exitcode s1 = exitcode s \<and> reported s1 = reported s
         \<and> (r = None \<longrightarrow> inputs_ok (inputupdate s1) \<and> exitcode (inputupdate s1) = exitcode s
                          \<and> reported (inputupdate s1) = reported s)"
  using assms
  by (auto simp: fgetc_def inputs_ok_def inputupdate_def readable_def Let_def
           split: option.splits handle.splits list.splits)

lemma nextbyte_ok:
  "inputs_ok s \<Longrightarrow> nextbyte s = (r, s') \<Longrightarrow>
     inputs_ok s' \<and> exitcode s' = exitcode s \<and> reported s' = reported s"
proof (induction s rule: nextbyte.induct)
  case (1 s)
  obtain b s1 where i: "inputinit s = (b, s1)" by (cases "inputinit s")
  note io = inputinit_ok [OF "1.prems"(1) i]
  note ii = inputinit_stream [OF i]
  show ?case
  proof (cases b)
    case False
    with "1.prems" i io show ?thesis by (simp add: nextbyte.simps [of s])
  next
    case True
    obtain r2 s2 where f: "fgetc s1 = (r2, s2)" by (cases "fgetc s1")
    from True ii have c: "currentfile s1 \<noteq> None" by simp
    have ok1: "inputs_ok s1" using io by simp
    note fo = fgetc_ok [OF ok1 f c]
    show ?thesis
    proof (cases r2)
      case (Some x)
      with "1.prems" i True f fo io show ?thesis by (simp add: nextbyte.simps [of s])
    next
      case None
      then have n: "nextbyte (inputupdate s2) = (r, s')"
        using "1.prems" i True f by (simp add: nextbyte.simps [of s])
      have bt: "b = True" using True by simp
      have ok2: "inputs_ok (inputupdate s2)" using fo None by simp
      from "1.IH" [OF i [symmetric] bt f [symmetric] None ok2 n] fo None io
      show ?thesis by simp
    qed
  qed
qed

lemma dump_skip_ok:
  "inputs_ok s \<Longrightarrow> dump_skip p s = (b, pos, s1) \<Longrightarrow>
     inputs_ok s1 \<and> exitcode s1 = exitcode s \<and> reported s1 = reported s"
proof (induction p s rule: dump_skip.induct)
  case (1 p s)
  show ?case
  proof (cases "p < startoffset s")
    case False
    with "1.prems" show ?thesis by (simp add: dump_skip.simps [of p s])
  next
    case True
    obtain r s' where nb: "nextbyte s = (r, s')" by (cases "nextbyte s")
    note ok = nextbyte_ok [OF "1.prems"(1) nb]
    show ?thesis
    proof (cases r)
      case None
      with "1.prems" True nb ok show ?thesis by (simp add: dump_skip.simps [of p s])
    next
      case (Some x)
      then have rc: "dump_skip (p + 1) s' = (b, pos, s1)"
        using "1.prems" True nb by (simp add: dump_skip.simps [of p s])
      from "1.IH" [OF True nb [symmetric] Some _ rc] ok show ?thesis by simp
    qed
  qed
qed

lemma event_bytes_plain: "event_bytes (plain_events L pos xs) = (if L = 0 then [] else xs)"
proof (induction L pos xs rule: plain_events.induct)
  case (1 L pos xs)
  show ?case
  proof (cases "L = 0 \<or> xs = []")
    case True
    then show ?thesis by (auto simp: plain_events.simps [of L pos xs])
  next
    case False
    with "1.IH" [OF False] show ?thesis by (simp add: plain_events.simps [of L pos xs])
  qed
qed

lemma valid_plain_settings: "valid_settings plain_settings"
  by (simp add: valid_settings_def plain_settings_def default_settings_def calc_default)

lemma valid_settings_linesize:
  "valid_settings cfg \<Longrightarrow> 1 \<le> linesize cfg \<and> linesize cfg \<le> 256"
  by (simp add: valid_settings_def)







section \<open>The autoskip coordinator\<close>

lemma held_step_nonzero:
  assumes "1 \<le> L" "xs \<noteq> []" "take L xs = ck" "drop L xs = rest" "\<exists>b \<in> set ck. b \<noteq> 0"
  shows "held_events L pos lh lhs hp xs
       = (if lh \<noteq> 0 then zero_events L lh hp else [])
         @ Line ck pos # held_events L (pos + int (length ck)) 0 lhs hp rest"
  using assms by (subst held_events.simps) auto

lemma held_step_zero:
  assumes "1 \<le> L" "xs \<noteq> []" "take L xs = ck" "drop L xs = rest" "\<forall>b \<in> set ck. b = 0"
  shows "held_events L pos lh lhs hp xs
       = held_events L (pos + int (length ck)) (lh + 1) (length ck) (if lh = 0 then pos else hp) rest"
  using assms by (subst held_events.simps) auto

lemma held_zero_run:
  assumes "1 \<le> L"
  shows "held_events L pos lh lhs hp (replicate (K * L) 0 @ tail)
       = held_events L (pos + int (K * L)) (lh + K) (if K = 0 then lhs else L)
           (if lh = 0 \<and> 0 < K then pos else hp) tail"
proof (induction K arbitrary: pos lh lhs hp)
  case 0
  show ?case by simp
next
  case (Suc K)
  let ?xs = "replicate (Suc K * L) 0 @ tail"
  have r: "replicate (Suc K * L) (0::byte) = replicate L 0 @ replicate (K * L) 0"
    by (simp add: replicate_add)
  have t: "take L ?xs = replicate L 0" unfolding r by simp
  have d: "drop L ?xs = replicate (K * L) 0 @ tail" unfolding r by simp
  have ne: "?xs \<noteq> []" using assms by (cases L) auto
  have z: "\<not> (\<exists>b \<in> set (take L ?xs). b \<noteq> 0)" unfolding t by simp
  have z': "\<forall>b \<in> set (replicate L (0::byte)). b = 0" by simp
  have "held_events L pos lh lhs hp ?xs
      = held_events L (pos + int (length (replicate L (0::byte)))) (lh + 1)
          (length (replicate L (0::byte))) (if lh = 0 then pos else hp) (replicate (K * L) 0 @ tail)"
    by (rule held_step_zero [OF assms ne t d z'])
  then have "held_events L pos lh lhs hp ?xs
      = held_events L (pos + int L) (lh + 1) L (if lh = 0 then pos else hp) (replicate (K * L) 0 @ tail)"
    by simp
  also have "\<dots> = held_events L (pos + int L + int (K * L)) (lh + 1 + K) (if K = 0 then L else L)
           (if lh + 1 = 0 \<and> 0 < K then pos + int L else (if lh = 0 then pos else hp)) tail"
    by (rule Suc.IH)
  finally show ?case by (simp add: algebra_simps)
qed

lemma held_nonzero_chunk:
  assumes "1 \<le> L" "ck \<noteq> []" "length ck = L \<or> (length ck < L \<and> rest = [])"
      and "\<exists>b \<in> set ck. b \<noteq> 0"
  shows "held_events L pos lh lhs hp (ck @ rest)
       = (if lh \<noteq> 0 then zero_events L lh hp else [])
         @ Line ck pos # held_events L (pos + int (length ck)) 0 lhs hp rest"
proof -
  have t: "take L (ck @ rest) = ck" using assms(3) by auto
  have d: "drop L (ck @ rest) = rest" using assms(3) by auto
  have ne: "ck @ rest \<noteq> []" using assms(2) by simp
  show ?thesis by (rule held_step_nonzero [OF assms(1) ne t d assms(4)])
qed

lemma held_zero_tail:
  assumes "1 \<le> L" "1 \<le> r" "r \<le> L"
  shows "held_events L pos lh lhs hp (replicate r 0)
       = zero_events L lh (if lh = 0 then pos else hp) @ [Line (replicate r 0) pos]"
proof -
  have t: "take L (replicate r (0::byte)) = replicate r 0" using assms by simp
  have d: "drop L (replicate r (0::byte)) = []" using assms by simp
  have ne: "replicate r (0::byte) \<noteq> []" using assms by (cases r) auto
  have z: "\<forall>b \<in> set (replicate r (0::byte)). b = 0" by simp
  have "held_events L pos lh lhs hp (replicate r 0)
      = held_events L (pos + int (length (replicate r (0::byte)))) (lh + 1)
          (length (replicate r (0::byte))) (if lh = 0 then pos else hp) []"
    by (rule held_step_zero [OF assms(1) ne t d z])
  also have "\<dots> = zero_events L lh (if lh = 0 then pos else hp) @ [Line (replicate r 0) pos]"
    by (subst held_events.simps) simp
  finally show ?thesis .
qed

lemma held_idle: "held_events L pos 0 a b xs = held_events L pos 0 a' b' xs"
proof (induction xs arbitrary: pos a b a' b' rule: length_induct)
  case (1 xs)
  show ?case
  proof (cases "L = 0 \<or> xs = []")
    case True
    then show ?thesis by (simp add: held_events.simps [of L pos 0])
  next
    case False
    then have sh: "length (drop L xs) < length xs" by (cases xs) auto
    show ?thesis
    proof (cases "\<exists>b \<in> set (take L xs). b \<noteq> 0")
      case True
      from 1 [rule_format, OF sh, of "pos + int (length (take L xs))" a b a' b']
      show ?thesis using False True
        by (simp add: held_events.simps [of L pos 0])
    next
      case z: False
      show ?thesis using False z by (simp add: held_events.simps [of L pos 0])
    qed
  qed
qed

lemma valid_autoskip_settings: "valid_settings autoskip_settings"
  by (simp add: valid_settings_def autoskip_settings_def default_settings_def calc_default)

lemma dumpfileswithautoskip_events:
  assumes "valid_settings cfg" "length line0 = 256"
  shows "rendered (dumpfileswithautoskip cfg line0 s pos c)
       = emit cfg (held_events (linesize cfg) pos 0 0 0 (take (maxinputlen s) (instream s))) c"
proof -
  have L: "1 \<le> linesize cfg" "linesize cfg \<le> 256" "linesize cfg \<le> length line0"
    using valid_settings_linesize [OF assms(1)] assms(2) by simp_all
  show ?thesis
    unfolding dumpfileswithautoskip_def
    by (rule dumpfileswithautoskip_loop_events [OF L]) simp_all
qed


text \<open>
  C1. With autoskip, when the bytes still to be dumped are K \<ge> 1 all-zero chunks of full
  line width followed by a chunk \<open>ck\<close> with a non-zero byte (and anything after it): for
  K \<le> 2 each held chunk is rendered as a full-width all-zero line at its own position, for
  K > 2 one full-width all-zero line is rendered at the start of the run, followed by the
  marker line; then \<open>ck\<close> is rendered at its position \<open>pos + K * linesize\<close>, and the
  coordinator goes on with no line held, as a coordinator started afresh there would.
\<close>

theorem zero_run_then_data:
  assumes "valid_settings cfg" and "length line0 = 256" and "1 \<le> K"
      and "take (maxinputlen s) (instream s) = replicate (K * linesize cfg) 0 @ ck @ rest"
      and "ck \<noteq> []" and "length ck = linesize cfg \<or> (length ck < linesize cfg \<and> rest = [])"
      and "\<exists>b \<in> set ck. b \<noteq> 0"
  shows "rendered (dumpfileswithautoskip cfg line0 s pos c)
       = emit cfg ((if K \<le> 2
                    then map (\<lambda>i. Line (replicate (linesize cfg) 0) (pos + int i * int (linesize cfg)))
                           [0..<K]
                    else [Line (replicate (linesize cfg) 0) pos, Marker])
                   @ Line ck (pos + int (K * linesize cfg))
                   # held_events (linesize cfg) (pos + int (K * linesize cfg) + int (length ck))
                       0 (linesize cfg) pos rest) c
     \<and> held_events (linesize cfg) (pos + int (K * linesize cfg) + int (length ck)) 0 (linesize cfg) pos rest
       = autoskip_events (linesize cfg) (pos + int (K * linesize cfg) + int (length ck)) rest"
proof
  let ?L = "linesize cfg"
  have L: "1 \<le> ?L" using valid_settings_linesize [OF assms(1)] by simp
  have K: "0 < K" "K \<noteq> 0" using assms(3) by simp_all
  have 1: "held_events ?L pos 0 0 0 (replicate (K * ?L) 0 @ ck @ rest)
         = held_events ?L (pos + int (K * ?L)) K ?L pos (ck @ rest)"
    using held_zero_run [OF L, of pos 0 0 0 K "ck @ rest"] K by simp
  have 2: "held_events ?L (pos + int (K * ?L)) K ?L pos (ck @ rest)
         = zero_events ?L K pos
           @ Line ck (pos + int (K * ?L))
           # held_events ?L (pos + int (K * ?L) + int (length ck)) 0 ?L pos rest"
    using held_nonzero_chunk [OF L assms(5,6,7), of "pos + int (K * ?L)" K ?L pos] K by simp
  have 3: "zero_events ?L K pos
         = (if K \<le> 2
            then map (\<lambda>i. Line (replicate ?L 0) (pos + int i * int ?L)) [0..<K]
            else [Line (replicate ?L 0) pos, Marker])"
    by (simp add: zero_events_def)
  show "rendered (dumpfileswithautoskip cfg line0 s pos c)
       = emit cfg ((if K \<le> 2
                    then map (\<lambda>i. Line (replicate ?L 0) (pos + int i * int ?L)) [0..<K]
                    else [Line (replicate ?L 0) pos, Marker])
                   @ Line ck (pos + int (K * ?L))
                   # held_events ?L (pos + int (K * ?L) + int (length ck)) 0 ?L pos rest) c"
    unfolding dumpfileswithautoskip_events [OF assms(1,2)] assms(4) 1 2 3 ..
  show "held_events ?L (pos + int (K * ?L) + int (length ck)) 0 ?L pos rest
       = autoskip_events ?L (pos + int (K * ?L) + int (length ck)) rest"
    unfolding autoskip_events_def by (rule held_idle)
qed

lemma instream_zeros_then_one: "instream zeros_then_one = replicate 48 0 @ [1]"
  by (simp add: instream_def zeros_then_one_def plainfile_def)

theorem zero_run_then_data_witness:
  "valid_settings autoskip_settings \<and> length (replicate 256 (0::byte)) = 256 \<and> (1::nat) \<le> 3
   \<and> take (maxinputlen zeros_then_one) (instream zeros_then_one)
       = replicate (3 * linesize autoskip_settings) 0 @ [1] @ []
   \<and> rendered (dumpfileswithautoskip autoskip_settings (replicate 256 0) zeros_then_one 0 colors0)
       = emit autoskip_settings [Line (replicate 16 0) 0, Marker, Line [1] 48] colors0"
proof -
  have l: "length (replicate 256 (0::byte)) = 256" by simp
  have k: "(1::nat) \<le> 3" by simp
  have L: "linesize autoskip_settings = 16" by (simp add: autoskip_settings_def default_settings_def)
  have t: "take (maxinputlen zeros_then_one) (instream zeros_then_one)
       = replicate (3 * linesize autoskip_settings) 0 @ [1] @ []"
    unfolding instream_zeros_then_one L by (simp add: zeros_then_one_def)
  have c: "[1::byte] \<noteq> []" "length [1::byte] = linesize autoskip_settings
           \<or> (length [1::byte] < linesize autoskip_settings \<and> ([]::byte list) = [])"
          "\<exists>b \<in> set [1::byte]. b \<noteq> 0"
    by (simp_all add: L)
  have h: "held_events 16 49 0 16 0 [] = []" by (simp add: held_events.simps)
  from zero_run_then_data [OF valid_autoskip_settings l k t c, of 0 colors0, THEN conjunct1]
  have "rendered (dumpfileswithautoskip autoskip_settings (replicate 256 0) zeros_then_one 0 colors0)
       = emit autoskip_settings [Line (replicate 16 0) 0, Marker, Line [1] 48] colors0"
    unfolding L by (simp add: h)
  with valid_autoskip_settings l k t show ?thesis by blast
qed

lemma zero_events_unfold:
  "zero_events L n p
     = (if n > 2 then [Line (replicate L 0) p, Marker]
        else map (\<lambda>i. Line (replicate L 0) (p + int i * int L)) [0..<n])"
  by (simp add: zero_events_def)


text \<open>
  C2. With autoskip, when the input ends while H \<ge> 1 all-zero chunks are held, H - 1 lines
  are rendered under the collapse rule (one full-width zero line at the start of the run and
  the marker if H - 1 > 2, else H - 1 full-width zero lines), then the last held chunk with
  its own length at its own position. For a stream of K full zero chunks and a final zero
  chunk of r bytes this is the collapse rule for K lines and a line of r zero bytes at
  \<open>pos + K * linesize\<close>; for 16 * 3 + 4 zero bytes and line width 16: a zero line, the
  marker, and a line of 4 zero bytes at position 48.
\<close>

theorem end_of_stream_flush:
  assumes "valid_settings cfg" and "length line0 = 256"
  shows "(\<forall>ch line s pos H lhs hp c.
            take (maxinputlen s) (instream s) = [] \<and> 1 \<le> H \<and> linesize cfg \<le> length line
            \<and> lhs \<le> length line \<and> take lhs line = replicate lhs 0 \<longrightarrow>
            rendered (dumpfileswithautoskip_loop cfg ch line s pos H lhs hp c)
              = emit cfg ((if H - 1 > 2 then [Line (replicate (linesize cfg) 0) hp, Marker]
                           else map (\<lambda>i. Line (replicate (linesize cfg) 0)
                                             (hp + int i * int (linesize cfg))) [0..<H - 1])
                          @ [Line (replicate lhs 0) (pos - int lhs)]) c)
       \<and> (\<forall>s pos c K r.
            1 \<le> r \<and> r \<le> linesize cfg
            \<and> take (maxinputlen s) (instream s) = replicate (K * linesize cfg + r) 0 \<longrightarrow>
            rendered (dumpfileswithautoskip cfg line0 s pos c)
              = emit cfg ((if K > 2 then [Line (replicate (linesize cfg) 0) pos, Marker]
                           else map (\<lambda>i. Line (replicate (linesize cfg) 0)
                                             (pos + int i * int (linesize cfg))) [0..<K])
                          @ [Line (replicate r 0) (pos + int (K * linesize cfg))]) c)
       \<and> (linesize cfg = 16 \<longrightarrow>
            (\<forall>s c. take (maxinputlen s) (instream s) = replicate (16 * 3 + 4) 0 \<longrightarrow>
               rendered (dumpfileswithautoskip cfg line0 s 0 c)
                 = emit cfg [Line (replicate 16 0) 0, Marker, Line (replicate 4 0) 48] c))"
proof -
  let ?L = "linesize cfg"
  have L: "1 \<le> ?L" "?L \<le> 256" using valid_settings_linesize [OF assms(1)] by simp_all
  have a: "rendered (dumpfileswithautoskip_loop cfg ch line s pos H lhs hp c)
              = emit cfg ((if H - 1 > 2 then [Line (replicate ?L 0) hp, Marker]
                           else map (\<lambda>i. Line (replicate ?L 0) (hp + int i * int ?L)) [0..<H - 1])
                          @ [Line (replicate lhs 0) (pos - int lhs)]) c"
    if h: "take (maxinputlen s) (instream s) = []" "1 \<le> H" "?L \<le> length line"
          "lhs \<le> length line" "take lhs line = replicate lhs 0"
    for ch line s pos H lhs hp c
  proof -
    have "rendered (dumpfileswithautoskip_loop cfg ch line s pos H lhs hp c)
            = emit cfg (held_events ?L pos H lhs hp (take (maxinputlen s) (instream s))) c"
      using h by (intro dumpfileswithautoskip_loop_events [OF L]) simp_all
    also have "held_events ?L pos H lhs hp (take (maxinputlen s) (instream s))
            = zero_events ?L (H - 1) hp @ [Line (replicate lhs 0) (pos - int lhs)]"
      unfolding h(1) using h(2) by (subst held_events.simps) simp
    finally show ?thesis unfolding zero_events_unfold .
  qed
  have b: "rendered (dumpfileswithautoskip cfg line0 s pos c)
              = emit cfg ((if K > 2 then [Line (replicate ?L 0) pos, Marker]
                           else map (\<lambda>i. Line (replicate ?L 0) (pos + int i * int ?L)) [0..<K])
                          @ [Line (replicate r 0) (pos + int (K * ?L))]) c"
    if h: "1 \<le> r" "r \<le> ?L" "take (maxinputlen s) (instream s) = replicate (K * ?L + r) 0"
    for s pos c K r
  proof -
    have sp: "replicate (K * ?L + r) (0::byte) = replicate (K * ?L) 0 @ replicate r 0"
      by (simp add: replicate_add)
    have 1: "held_events ?L pos 0 0 0 (replicate (K * ?L) 0 @ replicate r 0)
           = held_events ?L (pos + int (K * ?L)) K (if K = 0 then 0 else ?L)
               (if 0 < K then pos else 0) (replicate r 0)"
      using held_zero_run [OF L(1), of pos 0 0 0 K "replicate r 0"] by simp
    have 2: "held_events ?L (pos + int (K * ?L)) K (if K = 0 then 0 else ?L)
               (if 0 < K then pos else 0) (replicate r 0)
           = zero_events ?L K pos @ [Line (replicate r 0) (pos + int (K * ?L))]"
      using held_zero_tail [OF L(1) h(1,2), of "pos + int (K * ?L)" K] by (cases "K = 0") simp_all
    show ?thesis
      unfolding dumpfileswithautoskip_events [OF assms] h(3) sp 1 2 zero_events_unfold ..
  qed
  have c: "rendered (dumpfileswithautoskip cfg line0 s 0 c)
                 = emit cfg [Line (replicate 16 0) 0, Marker, Line (replicate 4 0) 48] c"
    if h: "?L = 16" "take (maxinputlen s) (instream s) = replicate (16 * 3 + 4) 0" for s c
  proof -
    have "take (maxinputlen s) (instream s) = replicate (3 * ?L + 4) 0" using h by simp
    from b [OF _ _ this, of 0 c] h(1) show ?thesis by simp
  qed
  from a b c show ?thesis by blast
qed

lemma instream_zeros_only: "instream zeros_only = replicate 52 0"
  by (simp add: instream_def zeros_only_def plainfile_def)

theorem end_of_stream_flush_witness:
  "valid_settings autoskip_settings \<and> length (replicate 256 (0::byte)) = 256
   \<and> linesize autoskip_settings = 16
   \<and> take (maxinputlen zeros_only) (instream zeros_only) = replicate (16 * 3 + 4) 0
   \<and> rendered (dumpfileswithautoskip autoskip_settings (replicate 256 0) zeros_only 0 colors0)
       = emit autoskip_settings [Line (replicate 16 0) 0, Marker, Line (replicate 4 0) 48] colors0
   \<and> take (maxinputlen drained) (instream drained) = []
   \<and> rendered (dumpfileswithautoskip_loop autoskip_settings None (replicate 256 0) drained 52 4 4 0 colors0)
       = emit autoskip_settings [Line (replicate 16 0) 0, Marker, Line (replicate 4 0) 48] colors0
   \<and> rendered (dumpfileswithautoskip_loop autoskip_settings None (replicate 256 0) drained 20 2 4 0 colors0)
       = emit autoskip_settings [Line (replicate 16 0) 0, Line (replicate 4 0) 16] colors0"
proof -
  note t = end_of_stream_flush [OF valid_autoskip_settings, of "replicate 256 0"]
  have l: "length (replicate 256 (0::byte)) = 256" by simp
  have L: "linesize autoskip_settings = 16" by (simp add: autoskip_settings_def default_settings_def)
  have t1: "take (maxinputlen zeros_only) (instream zeros_only) = replicate (16 * 3 + 4) 0"
    unfolding instream_zeros_only by (simp add: zeros_only_def)
  from t [OF l] L t1
  have 1: "rendered (dumpfileswithautoskip autoskip_settings (replicate 256 0) zeros_only 0 colors0)
        = emit autoskip_settings [Line (replicate 16 0) 0, Marker, Line (replicate 4 0) 48] colors0"
    by blast
  have d: "take (maxinputlen drained) (instream drained) = []"
    by (simp add: drained_def instream_def zeros_only_def)
  have h: "take (maxinputlen drained) (instream drained) = [] \<and> (1::nat) \<le> 4
           \<and> linesize autoskip_settings \<le> length (replicate 256 (0::byte))
           \<and> (4::nat) \<le> length (replicate 256 (0::byte))
           \<and> take 4 (replicate 256 (0::byte)) = replicate 4 0"
    using d L by simp
  from t [OF l, THEN conjunct1, rule_format, OF h, of None 52 0 colors0]
  have 2: "rendered (dumpfileswithautoskip_loop autoskip_settings None (replicate 256 0) drained 52 4 4 0 colors0)
       = emit autoskip_settings [Line (replicate 16 0) 0, Marker, Line (replicate 4 0) 48] colors0"
    unfolding L by simp
  have h2: "take (maxinputlen drained) (instream drained) = [] \<and> (1::nat) \<le> 2
           \<and> linesize autoskip_settings \<le> length (replicate 256 (0::byte))
           \<and> (4::nat) \<le> length (replicate 256 (0::byte))
           \<and> take 4 (replicate 256 (0::byte)) = replicate 4 0"
    using d L by simp
  from t [OF l, THEN conjunct1, rule_format, OF h2, of None 20 0 colors0]
  have 3: "rendered (dumpfileswithautoskip_loop autoskip_settings None (replicate 256 0) drained 20 2 4 0 colors0)
       = emit autoskip_settings [Line (replicate 16 0) 0, Line (replicate 4 0) 16] colors0"
    unfolding L by (simp add: upt_rec)
  from valid_autoskip_settings l L t1 1 d 2 3 show ?thesis by blast
qed
section \<open>The range of bytes that is dumped\<close>

text \<open>
  The coordinator renders lines of the plain dump, in their order, and leaves out nothing
  but full-width all-zero lines.
\<close>

lemma plain_events_step:
  assumes "1 \<le> L" "ck \<noteq> []" "length ck = L \<or> (length ck < L \<and> rest = [])"
  shows "plain_events L pos (ck @ rest) = Line ck pos # plain_events L (pos + int (length ck)) rest"
proof -
  have t: "take L (ck @ rest) = ck" using assms(3) by auto
  have d: "drop L (ck @ rest) = rest" using assms(3) by auto
  show ?thesis using assms(1,2) by (subst plain_events.simps) (simp add: t d del: take_append drop_append)
qed

lemma plain_events_zero_run:
  assumes "1 \<le> L"
  shows "plain_events L pos (replicate (K * L) 0 @ tail)
       = map (\<lambda>i. Line (replicate L 0) (pos + int i * int L)) [0..<K]
         @ plain_events L (pos + int (K * L)) tail"
proof (induction K arbitrary: pos)
  case 0
  show ?case by simp
next
  case (Suc K)
  have r: "replicate (Suc K * L) (0::byte) @ tail = replicate L 0 @ (replicate (K * L) 0 @ tail)"
    by (simp add: replicate_add)
  have ne: "replicate L (0::byte) \<noteq> []" using assms by (cases L) auto
  have "plain_events L pos (replicate (Suc K * L) 0 @ tail)
      = Line (replicate L 0) pos # plain_events L (pos + int L) (replicate (K * L) 0 @ tail)"
    unfolding r using plain_events_step [OF assms ne, of "replicate (K * L) 0 @ tail" pos] by simp
  also have "plain_events L (pos + int L) (replicate (K * L) 0 @ tail)
      = map (\<lambda>i. Line (replicate L 0) (pos + int L + int i * int L)) [0..<K]
         @ plain_events L (pos + int L + int (K * L)) tail"
    by (rule Suc.IH)
  also have "map (\<lambda>i. Line (replicate L 0) (pos + int L + int i * int L)) [0..<K]
           = map (\<lambda>i. Line (replicate L 0) (pos + int i * int L)) (map Suc [0..<K])"
    by (simp add: algebra_simps)
  finally show ?case
    by (simp add: upt_conv_Cons map_Suc_upt algebra_simps del: upt_Suc)
qed

lemma zero_events_subseq:
  "subseq (filter (\<lambda>e. e \<noteq> Marker) (zero_events L k hp)) (zero_lines L k hp)"
proof (cases "k > 2")
  case False
  then show ?thesis by (simp add: zero_events_def zero_lines_def filter_id_conv)
next
  case True
  then obtain j where k: "k = Suc j" by (cases k) auto
  have "zero_lines L k hp = Line (replicate L 0) hp # map (\<lambda>i. Line (replicate L 0) (hp + int i * int L)) [1..<k]"
    unfolding k zero_lines_def by (simp add: upt_conv_Cons del: upt_Suc)
  then show ?thesis using True by (simp add: zero_events_def)
qed

lemma zero_lines_zero: "e \<in> set (zero_lines L k hp) \<Longrightarrow> \<exists>p. e = Line (replicate L 0) p"
  by (auto simp: zero_lines_def)

lemma held_events_lines:
  assumes "1 \<le> L"
      and "h \<noteq> 0 \<longrightarrow> hp = pos - int ((h - 1) * L + lhs) \<and> 1 \<le> lhs \<and> lhs \<le> L \<and> (xs \<noteq> [] \<longrightarrow> lhs = L)"
  shows "subseq (filter (\<lambda>e. e \<noteq> Marker) (held_events L pos h lhs hp xs))
           (plain_events L (pos - int (if h = 0 then 0 else (h - 1) * L + lhs))
              (replicate (if h = 0 then 0 else (h - 1) * L + lhs) 0 @ xs))
       \<and> (\<forall>e \<in> set (plain_events L (pos - int (if h = 0 then 0 else (h - 1) * L + lhs))
                       (replicate (if h = 0 then 0 else (h - 1) * L + lhs) 0 @ xs)).
            e \<notin> set (held_events L pos h lhs hp xs) \<longrightarrow> (\<exists>p. e = Line (replicate L 0) p))"
  using assms(2)
proof (induction xs arbitrary: pos h lhs hp rule: length_induct)
  case (1 xs)
  note inv = "1.prems"
  let ?Z = "if h = 0 then 0 else (h - 1) * L + lhs"
  show ?case
  proof (cases "xs = []")
    case True
    show ?thesis
    proof (cases "h = 0")
      case h: True
      have "held_events L pos h lhs hp xs = []" using h True by (subst held_events.simps) simp
      with h True show ?thesis by simp
    next
      case h: False
      have he: "held_events L pos h lhs hp [] = zero_events L (h - 1) hp @ [Line (replicate lhs 0) (pos - int lhs)]"
        using h assms(1) by (subst held_events.simps) simp
      have ne: "replicate lhs (0::byte) \<noteq> []" using inv h by (cases lhs) auto
      have hp: "hp = pos - int ((h - 1) * L + lhs)" and l: "lhs \<le> L" using inv h by simp_all
      have "plain_events L hp (replicate ((h - 1) * L) 0 @ replicate lhs 0)
          = zero_lines L (h - 1) hp @ plain_events L (hp + int ((h - 1) * L)) (replicate lhs 0)"
        unfolding zero_lines_def by (rule plain_events_zero_run [OF assms(1)])
      also have "plain_events L (hp + int ((h - 1) * L)) (replicate lhs 0)
               = [Line (replicate lhs 0) (pos - int lhs)]"
      proof -
        have c: "length (replicate lhs (0::byte)) = L \<or> (length (replicate lhs (0::byte)) < L \<and> [] = ([]::byte list))"
          using l by auto
        have p: "hp + int ((h - 1) * L) = pos - int lhs" using hp by simp
        from plain_events_step [OF assms(1) ne c, of "hp + int ((h - 1) * L)"]
        show ?thesis unfolding p by simp
      qed
      finally have pe: "plain_events L (pos - int ?Z) (replicate ?Z 0 @ xs)
          = zero_lines L (h - 1) hp @ [Line (replicate lhs 0) (pos - int lhs)]"
        using h True hp by (simp add: replicate_add)
      have he': "held_events L pos h lhs hp xs = zero_events L (h - 1) hp @ [Line (replicate lhs 0) (pos - int lhs)]"
        using he True by simp
      have s1: "subseq (filter (\<lambda>e. e \<noteq> Marker) (zero_events L (h - 1) hp @ [Line (replicate lhs 0) (pos - int lhs)]))
                  (zero_lines L (h - 1) hp @ [Line (replicate lhs 0) (pos - int lhs)])"
        using zero_events_subseq [of L "h - 1" hp] by (auto intro!: list_emb_append_mono)
      have s2: "\<forall>e \<in> set (zero_lines L (h - 1) hp @ [Line (replicate lhs 0) (pos - int lhs)]).
                  e \<notin> set (zero_events L (h - 1) hp @ [Line (replicate lhs 0) (pos - int lhs)])
                    \<longrightarrow> (\<exists>p. e = Line (replicate L 0) p)"
        using zero_lines_zero [of _ L "h - 1" hp] by auto
      show ?thesis unfolding pe he' using s1 s2 by blast
    qed
  next
    case False
    let ?ck = "take L xs" and ?rest = "drop L xs"
    have sh: "length ?rest < length xs" using False assms(1) by (cases xs) auto
    have ck: "?ck \<noteq> []" using False assms(1) by (cases xs) auto
    have len: "length ?ck = L \<or> (length ?ck < L \<and> ?rest = [])" by auto
    have xs: "xs = ?ck @ ?rest" by simp
    have Z: "?Z = h * L" using inv False by (cases h) auto
    have hp: "h \<noteq> 0 \<Longrightarrow> hp = pos - int (h * L)" using inv False by (cases h) auto
    have pe: "plain_events L (pos - int ?Z) (replicate ?Z 0 @ xs)
            = zero_lines L h (pos - int (h * L)) @ Line ?ck pos # plain_events L (pos + int (length ?ck)) ?rest"
    proof -
      have "plain_events L (pos - int (h * L)) (replicate (h * L) 0 @ xs)
          = zero_lines L h (pos - int (h * L)) @ plain_events L (pos - int (h * L) + int (h * L)) xs"
        unfolding zero_lines_def by (rule plain_events_zero_run [OF assms(1)])
      moreover have "plain_events L pos xs = Line ?ck pos # plain_events L (pos + int (length ?ck)) ?rest"
        using plain_events_step [OF assms(1) ck len, of pos] by simp
      ultimately show ?thesis unfolding Z by simp
    qed
    show ?thesis
    proof (cases "\<exists>b \<in> set ?ck. b \<noteq> 0")
      case nz: True
      have he: "held_events L pos h lhs hp xs
             = (if h \<noteq> 0 then zero_events L h hp else [])
               @ Line ?ck pos # held_events L (pos + int (length ?ck)) 0 lhs hp ?rest"
        by (rule held_step_nonzero [OF assms(1) False refl refl nz])
      have inv0: "(0::nat) \<noteq> 0 \<longrightarrow> hp = pos + int (length ?ck) - int ((0 - 1) * L + lhs) \<and> 1 \<le> lhs
                    \<and> lhs \<le> L \<and> (?rest \<noteq> [] \<longrightarrow> lhs = L)" by simp
      from 1(1) [THEN spec, THEN mp, OF sh, THEN spec, THEN spec, THEN spec, THEN spec, THEN mp, OF inv0]
      have ih1: "subseq (filter (\<lambda>e. e \<noteq> Marker) (held_events L (pos + int (length ?ck)) 0 lhs hp ?rest))
                   (plain_events L (pos + int (length ?ck)) ?rest)"
       and ih2: "\<forall>e \<in> set (plain_events L (pos + int (length ?ck)) ?rest).
                   e \<notin> set (held_events L (pos + int (length ?ck)) 0 lhs hp ?rest)
                     \<longrightarrow> (\<exists>p. e = Line (replicate L 0) p)"
        by simp_all
      have s0: "subseq (filter (\<lambda>e. e \<noteq> Marker) (if h \<noteq> 0 then zero_events L h hp else []))
                  (zero_lines L h (pos - int (h * L)))"
        using zero_events_subseq [of L h hp] hp by (cases "h = 0") simp_all
      have s1: "subseq (filter (\<lambda>e. e \<noteq> Marker) (held_events L pos h lhs hp xs))
                  (plain_events L (pos - int ?Z) (replicate ?Z 0 @ xs))"
        unfolding pe he using s0 ih1 by (auto intro!: list_emb_append_mono)
      have s2: "\<forall>e \<in> set (plain_events L (pos - int ?Z) (replicate ?Z 0 @ xs)).
                  e \<notin> set (held_events L pos h lhs hp xs) \<longrightarrow> (\<exists>p. e = Line (replicate L 0) p)"
        unfolding pe he using ih2 zero_lines_zero [of _ L h "pos - int (h * L)"] by auto
      from s1 s2 show ?thesis by blast
    next
      case z: False
      then have z': "\<forall>b \<in> set ?ck. b = 0" by blast
      have he: "held_events L pos h lhs hp xs
             = held_events L (pos + int (length ?ck)) (h + 1) (length ?ck) (if h = 0 then pos else hp) ?rest"
        by (rule held_step_zero [OF assms(1) False refl refl z'])
      have ckz: "?ck = replicate (length ?ck) 0" by (rule replicate_length_same [OF z', symmetric])
      have l: "1 \<le> length ?ck" "length ?ck \<le> L" using ck by (simp_all add: Suc_le_eq)
      have full: "?rest \<noteq> [] \<longrightarrow> length ?ck = L" by auto
      have hp': "(if h = 0 then pos else hp) = pos + int (length ?ck) - int (h * L + length ?ck)"
        using hp by (cases "h = 0") simp_all
      have inv': "h + 1 \<noteq> 0 \<longrightarrow> (if h = 0 then pos else hp)
                       = pos + int (length ?ck) - int ((h + 1 - 1) * L + length ?ck)
                     \<and> 1 \<le> length ?ck \<and> length ?ck \<le> L \<and> (?rest \<noteq> [] \<longrightarrow> length ?ck = L)"
        using hp' l full by simp
      have eq: "replicate (h * L + length ?ck) 0 @ ?rest = replicate ?Z 0 @ xs"
      proof -
        have "replicate ?Z 0 @ xs = replicate (h * L) 0 @ (?ck @ ?rest)" unfolding Z by simp
        also have "\<dots> = replicate (h * L) 0 @ replicate (length ?ck) 0 @ ?rest"
          using ckz by (metis append_assoc)
        finally show ?thesis by (simp add: replicate_add)
      qed
      have ps: "pos + int (length ?ck) - int (h * L + length ?ck) = pos - int ?Z" unfolding Z by simp
      have Zeq: "(if h + 1 = 0 then 0 else (h + 1 - 1) * L + length ?ck) = h * L + length ?ck" by simp
      note ih = 1(1) [THEN spec, THEN mp, OF sh, THEN spec, THEN spec, THEN spec, THEN spec, THEN mp, OF inv']
      show ?thesis unfolding he using ih [unfolded Zeq ps eq] .
    qed
  qed
qed

lemma autoskip_events_lines:
  assumes "1 \<le> L"
  shows "subseq (filter (\<lambda>e. e \<noteq> Marker) (autoskip_events L pos xs)) (plain_events L pos xs)"
    and "\<forall>e \<in> set (plain_events L pos xs).
           e \<notin> set (autoskip_events L pos xs) \<longrightarrow> (\<exists>p. e = Line (replicate L 0) p)"
  using held_events_lines [OF assms, of 0 0 pos 0 xs] by (simp_all add: autoskip_events_def)


lemma autoskip_events_example:
  "autoskip_events 16 0 (replicate 48 0 @ [1]) = [Line (replicate 16 0) 0, Marker, Line [1] 48]"
proof -
  have L: "(1::nat) \<le> 16" by simp
  have c: "[1::byte] \<noteq> []" "length [1::byte] = 16 \<or> (length [1::byte] < 16 \<and> ([]::byte list) = [])"
          "\<exists>b \<in> set [1::byte]. b \<noteq> 0" by simp_all
  have "held_events 16 0 0 0 0 (replicate (3 * 16) 0 @ [1] @ [])
      = held_events 16 (0 + int (3 * 16)) (0 + 3) (if (3::nat) = 0 then 0 else 16)
           (if (0::nat) = 0 \<and> (0::nat) < 3 then 0 else 0) ([1] @ [])"
    by (rule held_zero_run [OF L])
  also have "\<dots> = held_events 16 48 3 16 0 ([1] @ [])" by simp
  also have "\<dots> = (if (3::nat) \<noteq> 0 then zero_events 16 3 0 else [])
                   @ Line [1] 48 # held_events 16 (48 + int (length [1::byte])) 0 16 0 []"
    by (rule held_nonzero_chunk [OF L c])
  also have "\<dots> = [Line (replicate 16 0) 0, Marker, Line [1] 48]"
    by (simp add: zero_events_def held_events.simps [of _ _ _ _ _ "[]"])
  finally show ?thesis by (simp add: autoskip_events_def)
qed

lemma plain_events_example:
  "plain_events 16 0 (replicate 48 0 @ [1])
     = [Line (replicate 16 0) 0, Line (replicate 16 0) 16, Line (replicate 16 0) 32, Line [1] 48]"
proof -
  have L: "(1::nat) \<le> 16" by simp
  have "plain_events 16 0 (replicate (3 * 16) 0 @ [1])
      = map (\<lambda>i. Line (replicate 16 0) (0 + int i * int 16)) [0..<3]
         @ plain_events 16 (0 + int (3 * 16)) [1]"
    by (rule plain_events_zero_run [OF L])
  moreover have "plain_events 16 48 [1] = [Line [1] 48]"
    by (simp add: plain_events.simps [of 16 48] plain_events.simps [of _ _ "[]"])
  moreover have "[0..<3] = [0, 1, 2]" by (simp add: upt_conv_Cons)
  ultimately show ?thesis by simp
qed

lemma zeros_then_one_range:
  "take (maxinputlen zeros_then_one) (drop (startoffset zeros_then_one) (instream zeros_then_one))
     = replicate 48 0 @ [1]"
  unfolding instream_zeros_then_one by (simp add: zeros_then_one_def)


lemma instream_twofiles: "instream twofiles = [1, 2, 3, 4, 5, 6]"
  by (simp add: instream_def twofiles_def plainfile_def)

lemma inputs_ok_short_input: "inputs_ok short_input"
  by (simp add: inputs_ok_def short_input_def twofiles_def plainfile_def readable_def)

lemma instream_short_input: "instream short_input = [1, 2, 3, 4, 5, 6]"
  by (simp add: instream_def short_input_def twofiles_def plainfile_def)


lemma replicate_16: "replicate 16 (0::byte) = [0, 0, 0, 0, 0, 0, 0, 0, 0, 0, 0, 0, 0, 0, 0, 0]"
  by (simp add: eval_nat_numeral)

lemma zero_glyphs_16: "concat (replicate 16 [Out 226, Out 144, Out 128])
  = concat (map (\<lambda>ch. map Out (getbyterepresentation True ch)) [0, 0, 0, 0, 0, 0, 0, 0, 0, 0, 0, 0, 0, 0, 0, 0])"
  by (simp add: eval_nat_numeral getbyterepresentation_def)

lemma zero_hexloop_16: "hexloop_uncolored autoskip_settings 0 [0, 0, 0, 0, 0, 0, 0, 0, 0, 0, 0, 0, 0, 0, 0, 0] 8
  = (str '' 0000 0000 0000 0000 0000 0000 0000 0000'', 0)"
  by (simp add: autoskip_settings_def default_settings_def hex2_def hexdigit_def str_def)

lemma render_one_at_48: "renderlineuncolored autoskip_settings [1] 48
           = str ''00000030: 01'' @ replicate 37 (Out 32) @ str ''  '' @ [Out 226, Out 144, Out 129] @ [Out 10]"
    by (simp add: renderlineuncolored_def autoskip_settings_def default_settings_def hex8_def hex2_def
          hexdigit_def pad_def str_def getbyterepresentation_def)

lemma render_zero_line: "renderlineuncolored autoskip_settings (replicate 16 0) 0
           = str ''00000000: 0000 0000 0000 0000 0000 0000 0000 0000  ''
               @ concat (replicate 16 [Out 226, Out 144, Out 128]) @ [Out 10]"
proof -
  have u: "useunicode autoskip_settings = True" and w: "hexwidth autoskip_settings = 40"
    by (simp_all add: autoskip_settings_def default_settings_def)
  show ?thesis
    unfolding replicate_16 zero_glyphs_16
    by (simp add: renderlineuncolored_def zero_hexloop_16 u w pad_def hex8_def hexdigit_def str_def
             del: hexloop_uncolored.simps)
qed

lemma emit_zeros_then_one: "emit autoskip_settings [Line (replicate 16 0) 0, Marker, Line [1] 48] colors0
  = Some (renderlineuncolored autoskip_settings (replicate 16 0) 0
                         @ [Out 42, Out 10] @ renderlineuncolored autoskip_settings [1] 48, colors0)"
proof -
  have h: "hexoutput autoskip_settings" "\<not> colorize autoskip_settings"
    by (simp_all add: autoskip_settings_def default_settings_def)
  show ?thesis by (simp add: dumpline_def h)
qed


text \<open>
  C3 (as amended). For every input state, start offset S and length limit M, the dump driver
  selects the bytes \<open>[S, S + M)\<close> of the concatenated stream, clamped to its length, and
  cuts them into lines from position S on. Without autoskip it renders every one of these
  lines, so that the bytes rendered are exactly that range. With autoskip it hands the same
  range to the coordinator: the lines rendered are, in their order, lines of the range at
  their positions, and a line of the range that is not rendered is a full-width all-zero
  line. When the stream ends within the first S bytes, the driver returns normally with no
  output; it reports no error and leaves the exit code alone when the inputs themselves
  have none.
\<close>

theorem dump_selects_range:
  assumes "valid_settings cfg" and "length line0 = 256"
  shows "let selected = take (maxinputlen s) (drop (startoffset s) (instream s));
             lines = plain_events (linesize cfg) (int (startoffset s)) selected;
             evs = (if autoskip cfg then autoskip_events (linesize cfg) (int (startoffset s)) selected
                    else lines)
         in rendered (dump cfg line0 s c) = emit cfg evs c
          \<and> event_bytes lines = selected
          \<and> (\<not> autoskip cfg \<longrightarrow> event_bytes evs = selected)
          \<and> subseq (filter (\<lambda>e. e \<noteq> Marker) evs) lines
          \<and> (\<forall>e \<in> set lines. e \<notin> set evs \<longrightarrow>
                autoskip cfg \<and> (\<exists>pos. e = Line (replicate (linesize cfg) 0) pos))
          \<and> (length (instream s) < startoffset s \<longrightarrow>
               (\<exists>s'. dump cfg line0 s c = Some ([], c, s')
                   \<and> (inputs_ok s \<longrightarrow> exitcode s' = exitcode s \<and> reported s' = reported s)))"
proof -
  let ?range = "take (maxinputlen s) (drop (startoffset s) (instream s))"
  let ?lines = "plain_events (linesize cfg) (int (startoffset s)) ?range"
  let ?evs = "if autoskip cfg then autoskip_events (linesize cfg) (int (startoffset s)) ?range
              else ?lines"
  have L: "1 \<le> linesize cfg" "linesize cfg \<le> 256" "linesize cfg \<le> length line0"
    using valid_settings_linesize [OF assms(1)] assms(2) by simp_all
  have 1: "rendered (dump cfg line0 s c) = emit cfg ?evs c"
    using dump_events [OF L, of s c] by (cases "autoskip cfg") simp_all
  have 2: "event_bytes ?lines = ?range"
    using L(1) by (simp add: event_bytes_plain)
  have 3: "\<not> autoskip cfg \<longrightarrow> event_bytes ?evs = ?range" using 2 by simp
  have 4: "subseq (filter (\<lambda>e. e \<noteq> Marker) ?evs) ?lines"
  proof (cases "autoskip cfg")
    case True
    then show ?thesis using autoskip_events_lines(1) [OF L(1)] by simp
  next
    case False
    have nm: "Marker \<notin> set (plain_events K p xs)" for K p xs
      by (induction K p xs rule: plain_events.induct) (subst plain_events.simps, simp)
    have "\<forall>e \<in> set ?lines. e \<noteq> Marker" using nm by blast
    then have "filter (\<lambda>e. e \<noteq> Marker) ?lines = ?lines" by (simp only: filter_id_conv)
    with False show ?thesis by simp
  qed
  have 5: "\<forall>e \<in> set ?lines. e \<notin> set ?evs \<longrightarrow>
                autoskip cfg \<and> (\<exists>pos. e = Line (replicate (linesize cfg) 0) pos)"
    using autoskip_events_lines(2) [OF L(1), of "int (startoffset s)" ?range]
    by (cases "autoskip cfg") simp_all
  have 6: "\<exists>s'. dump cfg line0 s c = Some ([], c, s')
                \<and> (inputs_ok s \<longrightarrow> exitcode s' = exitcode s \<and> reported s' = reported s)"
    if short: "length (instream s) < startoffset s"
  proof -
    obtain b pos s1 where sk: "dump_skip 0 s = (b, pos, s1)" by (cases "dump_skip 0 s") auto
    from dump_skip_stream [OF sk] short have "\<not> b" by simp
    then have d: "dump cfg line0 s c = Some ([], c, s1)" using sk by (simp add: dump_def)
    moreover have "exitcode s1 = exitcode s \<and> reported s1 = reported s" if "inputs_ok s"
      using dump_skip_ok [OF that sk] by simp
    ultimately show ?thesis by blast
  qed
  show ?thesis unfolding Let_def using 1 2 3 4 5 6 by blast
qed

theorem dump_selects_range_witness:
  "valid_settings plain_settings \<and> valid_settings autoskip_settings
   \<and> length (replicate 256 (0::byte)) = 256
   \<and> \<not> autoskip plain_settings
   \<and> take (maxinputlen twofiles) (drop (startoffset twofiles) (instream twofiles)) = [3, 4, 5]
   \<and> rendered (dump plain_settings (replicate 256 0) twofiles colors0)
       = Some (renderlineuncolored plain_settings [3, 4, 5] 2, colors0)
   \<and> event_bytes (plain_events (linesize plain_settings) (int (startoffset twofiles)) [3, 4, 5])
       = [3, 4, 5]
   \<and> autoskip autoskip_settings
   \<and> rendered (dump autoskip_settings (replicate 256 0) zeros_then_one colors0)
       = emit autoskip_settings [Line (replicate 16 0) 0, Marker, Line [1] 48] colors0
   \<and> subseq [Line (replicate 16 0) 0, Line [1] 48]
        [Line (replicate 16 0) 0, Line (replicate 16 0) 16, Line (replicate 16 0) 32, Line [1] 48]
   \<and> Line (replicate 16 0) 16 \<in> set (plain_events 16 0 (replicate 48 0 @ [1]))
   \<and> Line (replicate 16 0) 16 \<notin> set (autoskip_events 16 0 (replicate 48 0 @ [1]))
   \<and> (\<exists>pos. Line (replicate 16 0) 16 = Line (replicate (linesize autoskip_settings) 0) pos)
   \<and> length (instream short_input) < startoffset short_input \<and> inputs_ok short_input
   \<and> (\<exists>s'. dump plain_settings (replicate 256 0) short_input colors0 = Some ([], colors0, s')
            \<and> exitcode s' = 0 \<and> reported s' = [])"
proof -
  have l: "length (replicate 256 (0::byte)) = 256" by simp
  have r: "take (maxinputlen twofiles) (drop (startoffset twofiles) (instream twofiles)) = [3, 4, 5]"
    unfolding instream_twofiles by (simp add: twofiles_def)
  have e: "plain_events (linesize plain_settings) (int (startoffset twofiles)) [3, 4, 5] = [Line [3, 4, 5] 2]"
    by (simp add: plain_events.simps plain_settings_def default_settings_def twofiles_def)
  have na: "\<not> autoskip plain_settings" by (simp add: plain_settings_def default_settings_def)
  note p = dump_selects_range [OF valid_plain_settings l, of twofiles colors0, unfolded Let_def r]
  have "rendered (dump plain_settings (replicate 256 0) twofiles colors0)
          = emit plain_settings [Line [3, 4, 5] 2] colors0"
    using p [THEN conjunct1] na by (simp only: e if_False)
  also have "\<dots> = Some (renderlineuncolored plain_settings [3, 4, 5] 2, colors0)"
    by (simp add: dumpline_def plain_settings_def default_settings_def)
  finally have 1: "rendered (dump plain_settings (replicate 256 0) twofiles colors0)
       = Some (renderlineuncolored plain_settings [3, 4, 5] 2, colors0)" .
  have 2: "event_bytes (plain_events (linesize plain_settings) (int (startoffset twofiles)) [3, 4, 5])
       = [3, 4, 5]"
    using p [THEN conjunct2, THEN conjunct2, THEN conjunct1] na by (simp only: if_False simp_thms)
  have a: "autoskip autoskip_settings" by (simp add: autoskip_settings_def default_settings_def)
  have L: "linesize autoskip_settings = 16" by (simp add: autoskip_settings_def default_settings_def)
  have s: "int (startoffset zeros_then_one) = 0" by (simp add: zeros_then_one_def)
  note q = dump_selects_range [OF valid_autoskip_settings l, of zeros_then_one colors0,
             unfolded Let_def zeros_then_one_range L s autoskip_events_example plain_events_example]
  have 3: "rendered (dump autoskip_settings (replicate 256 0) zeros_then_one colors0)
       = emit autoskip_settings [Line (replicate 16 0) 0, Marker, Line [1] 48] colors0"
    using q [THEN conjunct1] a by (simp only: if_True autoskip_events_example)
  have 4: "subseq [Line (replicate 16 0) 0, Line [1] 48]
        [Line (replicate 16 0) 0, Line (replicate 16 0) 16, Line (replicate 16 0) 32, Line [1] 48]"
    using q [THEN conjunct2, THEN conjunct2, THEN conjunct2, THEN conjunct1] a
    by (simp add: autoskip_events_example)
  have 5: "Line (replicate 16 0) 16 \<in> set (plain_events 16 0 (replicate 48 0 @ [1]))"
    unfolding plain_events_example by simp
  have 6: "Line (replicate 16 0) 16 \<notin> set (autoskip_events 16 0 (replicate 48 0 @ [1]))"
    unfolding autoskip_events_example by simp
  have 7: "\<exists>pos. Line (replicate 16 0) 16 = Line (replicate (linesize autoskip_settings) 0) pos"
    using q [THEN conjunct2, THEN conjunct2, THEN conjunct2, THEN conjunct2, THEN conjunct1,
             THEN bspec, of "Line (replicate 16 0) 16"] a
    by (simp add: autoskip_events_example L)
  have sh: "length (instream short_input) < startoffset short_input"
    unfolding instream_short_input by (simp add: short_input_def)
  from dump_selects_range [OF valid_plain_settings l, of short_input colors0, unfolded Let_def,
         THEN conjunct2, THEN conjunct2, THEN conjunct2, THEN conjunct2, THEN conjunct2,
         rule_format, OF sh]
  obtain s' where d: "dump plain_settings (replicate 256 0) short_input colors0 = Some ([], colors0, s')"
    and ok: "inputs_ok short_input \<longrightarrow> exitcode s' = exitcode short_input \<and> reported s' = reported short_input"
    by blast
  have "exitcode s' = 0 \<and> reported s' = []"
    using ok inputs_ok_short_input by (simp add: short_input_def twofiles_def)
  with d have 8: "\<exists>s'. dump plain_settings (replicate 256 0) short_input colors0 = Some ([], colors0, s')
            \<and> exitcode s' = 0 \<and> reported s' = []" by blast
  from valid_plain_settings valid_autoskip_settings l na r 1 2 a 3 4 5 6 7 sh inputs_ok_short_input 8
  show ?thesis by blast
qed


text \<open>
  The claim as stated fails with autoskip, which the driver dispatches to: for 48 zero bytes
  followed by 01 and line size 16 the range is all 49 bytes, but the output is the zero line
  at position 0, the marker line and the line of the byte 01 at position 0x30; the 32 bytes
  at positions 16 to 47 are not rendered.
\<close>

theorem autoskip_leaves_out_zero_lines:
  "autoskip autoskip_settings
   \<and> take (maxinputlen zeros_then_one) (drop (startoffset zeros_then_one) (instream zeros_then_one))
       = replicate 48 0 @ [1]
   \<and> rendered (dump autoskip_settings (replicate 256 0) zeros_then_one colors0)
       = Some (str ''00000000: 0000 0000 0000 0000 0000 0000 0000 0000  ''
               @ concat (replicate 16 [Out 226, Out 144, Out 128]) @ [Out 10]
               @ str ''*'' @ [Out 10]
               @ str ''00000030: 01'' @ replicate 37 (Out 32) @ str ''  ''
               @ [Out 226, Out 144, Out 129] @ [Out 10], colors0)"
proof -
  have a: "autoskip autoskip_settings" by (simp add: autoskip_settings_def default_settings_def)
  have L: "1 \<le> linesize autoskip_settings" "linesize autoskip_settings \<le> 256"
          "linesize autoskip_settings \<le> length (replicate 256 (0::byte))"
    by (simp_all add: autoskip_settings_def default_settings_def)
  have l: "linesize autoskip_settings = 16" by (simp add: autoskip_settings_def default_settings_def)
  have s: "int (startoffset zeros_then_one) = 0" by (simp add: zeros_then_one_def)
  have m: "[Out 42, Out 10] = str ''*'' @ [Out 10]" by (simp add: str_def)
  have "rendered (dump autoskip_settings (replicate 256 0) zeros_then_one colors0)
      = emit autoskip_settings [Line (replicate 16 0) 0, Marker, Line [1] 48] colors0"
    unfolding dump_events [OF L] zeros_then_one_range l s using a
    by (simp only: if_True autoskip_events_example)
  also note emit_zeros_then_one
  finally show ?thesis unfolding render_zero_line render_one_at_48 m using a zeros_then_one_range by (simp only: append_assoc simp_thms)
qed

section \<open>Properties of the palette\<close>

lemma length_colorset: "length colorset = 256"
  by (simp add: colorset_def)

lemma zero_notin_colorset: "0 \<notin> set colorset"
  by (simp add: colorset_def)

lemma colorset_nonzero: "n < 256 \<Longrightarrow> colorset ! n \<noteq> 0"
proof -
  assume "n < 256"
  then have "colorset ! n \<in> set colorset" by (intro nth_mem) (simp add: length_colorset)
  then show ?thesis using zero_notin_colorset by metis
qed

lemma assigncolor_keeps:
  assumes "assigncolor ch c = Some c1"
  shows "palette c1 ch \<noteq> 0 \<and> (\<forall>b. palette c b \<noteq> 0 \<longrightarrow> palette c1 b = palette c b)"
  using assms colorset_nonzero [of "nextcolorfromset c"]
  by (auto simp: assigncolor_def length_colorset split: if_splits)

lemma draw_hex_cong:
  "\<forall>ch \<in> set buf. pal ch = pal' ch \<Longrightarrow> draw_hex cfg pal i buf = draw_hex cfg pal' i buf"
  by (induction buf arbitrary: i) auto

lemma draw_glyphs_cong:
  "\<forall>ch \<in> set buf. pal ch = pal' ch \<Longrightarrow> draw_glyphs cfg pal buf = draw_glyphs cfg pal' buf"
  by (induction buf) auto

lemma draw_bytes_cong:
  "\<forall>ch \<in> set (filter isgraph buf). pal ch = pal' ch \<Longrightarrow>
     draw_bytes cfg pal buf = draw_bytes cfg pal' buf"
  by (induction buf) auto

lemma draw_line_cong:
  "\<forall>ch \<in> set (shown cfg buf). pal ch = pal' ch \<Longrightarrow>
     draw_line cfg pal buf pos = draw_line cfg pal' buf pos"
  using draw_hex_cong [of buf pal pal' cfg 0] draw_glyphs_cong [of buf pal pal' cfg]
        draw_bytes_cong [of buf pal pal' cfg]
  by (auto simp: draw_line_def shown_def)

lemma draw_cong:
  "\<forall>ch \<in> set (observed cfg evs). pal ch = pal' ch \<Longrightarrow> draw cfg pal evs = draw cfg pal' evs"
proof (induction evs)
  case Nil
  show ?case by simp
next
  case (Cons e evs)
  show ?case
  proof (cases e)
    case (Line buf pos)
    with Cons show ?thesis using draw_line_cong [of cfg buf pal pal' pos] by auto
  next
    case Marker
    with Cons show ?thesis by auto
  qed
qed

lemma hexloop_colored_draw:
  "hexloop_colored cfg i buf x c = Some (out, x', c') \<Longrightarrow>
     out = draw_hex cfg (palette c') i buf
     \<and> x' = snd (hexloop_uncolored cfg i buf x)
     \<and> (\<forall>b. palette c b \<noteq> 0 \<longrightarrow> palette c' b = palette c b)
     \<and> (\<forall>ch \<in> set buf. palette c' ch \<noteq> 0)"
proof (induction buf arbitrary: i x c out x' c')
  case Nil
  then show ?case by simp
next
  case (Cons ch rest)
  let ?x1 = "if i mod groupsize cfg = 0 then x - 1 else x"
  from Cons.prems obtain c1 out1 where
      a: "assigncolor ch c = Some c1"
  and r: "hexloop_colored cfg (Suc i) rest ?x1 c1 = Some (out1, x', c')"
  and o: "out = (if i mod groupsize cfg = 0 then [Out 32] else []) @ Setaf (palette c1 ch) # hex2 ch @ out1"
    by (auto split: option.splits if_splits)
  note k = assigncolor_keeps [OF a]
  from Cons.IH [OF r] have
      ih1: "out1 = draw_hex cfg (palette c') (Suc i) rest"
  and ih2: "x' = snd (hexloop_uncolored cfg (Suc i) rest ?x1)"
  and ih3: "\<forall>b. palette c1 b \<noteq> 0 \<longrightarrow> palette c' b = palette c1 b"
  and ih4: "\<forall>ch \<in> set rest. palette c' ch \<noteq> 0"
    by simp_all
  have e: "palette c' ch = palette c1 ch" using k ih3 by simp
  have "out = draw_hex cfg (palette c') i (ch # rest)" unfolding o ih1 using e by simp
  moreover have "x' = snd (hexloop_uncolored cfg i (ch # rest) x)"
    using ih2 by (simp add: split_beta)
  moreover have "\<forall>b. palette c b \<noteq> 0 \<longrightarrow> palette c' b = palette c b"
    using k ih3 by auto
  moreover have "\<forall>b \<in> set (ch # rest). palette c' b \<noteq> 0" using ih4 e k by auto
  ultimately show ?case by blast
qed

lemma glyphloop_colored_draw:
  "glyphloop_colored cfg buf c = Some (out, c') \<Longrightarrow>
     out = draw_glyphs cfg (palette c') buf
     \<and> (\<forall>b. palette c b \<noteq> 0 \<longrightarrow> palette c' b = palette c b)
     \<and> (\<forall>ch \<in> set buf. palette c' ch \<noteq> 0)"
proof (induction buf arbitrary: c out c')
  case Nil
  then show ?case by simp
next
  case (Cons ch rest)
  from Cons.prems obtain c1 out1 where
      a: "assigncolor ch c = Some c1"
  and r: "glyphloop_colored cfg rest c1 = Some (out1, c')"
  and o: "out = Setaf (palette c1 ch) # map Out (getbyterepresentation (useunicode cfg) ch) @ out1"
    by (auto split: option.splits)
  note k = assigncolor_keeps [OF a]
  from Cons.IH [OF r] have
      ih1: "out1 = draw_glyphs cfg (palette c') rest"
  and ih3: "\<forall>b. palette c1 b \<noteq> 0 \<longrightarrow> palette c' b = palette c1 b"
  and ih4: "\<forall>ch \<in> set rest. palette c' ch \<noteq> 0"
    by simp_all
  have e: "palette c' ch = palette c1 ch" using k ih3 by simp
  have "out = draw_glyphs cfg (palette c') (ch # rest)" unfolding o ih1 using e by simp
  moreover have "\<forall>b. palette c b \<noteq> 0 \<longrightarrow> palette c' b = palette c b"
    using k ih3 by auto
  moreover have "\<forall>b \<in> set (ch # rest). palette c' b \<noteq> 0" using ih4 e k by auto
  ultimately show ?case by blast
qed

lemma renderbytes_loop_draw:
  "renderbytes_loop cfg buf c = Some (out, c') \<Longrightarrow>
     out = draw_bytes cfg (palette c') buf
     \<and> (\<forall>b. palette c b \<noteq> 0 \<longrightarrow> palette c' b = palette c b)
     \<and> (\<forall>ch \<in> set (filter isgraph buf). palette c' ch \<noteq> 0)"
proof (induction buf arbitrary: c out c')
  case Nil
  then show ?case by simp
next
  case (Cons ch rest)
  show ?case
  proof (cases "isgraph ch")
    case False
    from Cons.prems False obtain out1 where
        r: "renderbytes_loop cfg rest c = Some (out1, c')" and o: "out = Out ch # out1"
      by (auto split: option.splits)
    from Cons.IH [OF r] show ?thesis using False o by simp
  next
    case True
    from Cons.prems True obtain c1 out1 where
        a: "assigncolor ch c = Some c1"
    and r: "renderbytes_loop cfg rest c1 = Some (out1, c')"
    and o: "out = Setaf (palette c1 ch) # map Out (getbyterepresentation (useunicode cfg) ch) @ out1"
      by (auto split: option.splits)
    note k = assigncolor_keeps [OF a]
    from Cons.IH [OF r] have
        ih1: "out1 = draw_bytes cfg (palette c') rest"
    and ih3: "\<forall>b. palette c1 b \<noteq> 0 \<longrightarrow> palette c' b = palette c1 b"
    and ih4: "\<forall>ch \<in> set (filter isgraph rest). palette c' ch \<noteq> 0"
      by simp_all
    have e: "palette c' ch = palette c1 ch" using k ih3 by simp
    have "out = draw_bytes cfg (palette c') (ch # rest)" unfolding o ih1 using e True by simp
    moreover have "\<forall>b. palette c b \<noteq> 0 \<longrightarrow> palette c' b = palette c b"
      using k ih3 by auto
    moreover have "\<forall>b \<in> set (filter isgraph (ch # rest)). palette c' b \<noteq> 0"
      using ih4 e k by auto
    ultimately show ?thesis by blast
  qed
qed

lemma dumpline_draw:
  assumes "dumpline cfg buf (length buf) pos c = Some (out, c')"
  shows "out = draw_line cfg (palette c') buf pos
     \<and> (\<forall>b. palette c b \<noteq> 0 \<longrightarrow> palette c' b = palette c b)
     \<and> (\<forall>ch \<in> set (shown cfg buf). palette c' ch \<noteq> 0)"
proof (cases "buf = []")
  case True
  with assms show ?thesis by (simp add: dumpline_def draw_line_def shown_def)
next
  case ne: False
  show ?thesis
  proof (cases "hexoutput cfg")
    case False
    with assms ne obtain out1 where
        r: "renderbytes_loop cfg buf c = Some (out1, c')" and o: "out = out1 @ [Sgr0]"
      by (auto simp: dumpline_def renderbytescolored_def split: option.splits)
    from renderbytes_loop_draw [OF r] o False ne show ?thesis
      by (simp add: draw_line_def shown_def)
  next
    case hex: True
    show ?thesis
    proof (cases "colorize cfg")
      case False
      with assms ne hex show ?thesis by (simp add: dumpline_def draw_line_def shown_def)
    next
      case True
      with assms ne hex obtain hexpart x c1 glyphs where
          h: "hexloop_colored cfg 0 buf (hexwidth cfg - 2 * int (length buf)) c = Some (hexpart, x, c1)"
      and g: "glyphloop_colored cfg buf c1 = Some (glyphs, c')"
      and o: "out = Sgr0 # hex8 pos @ str '':'' @ hexpart @ Sgr0 # pad x @ str ''  ''
                    @ glyphs @ [Sgr0, Out 10]"
        by (auto simp: dumpline_def renderlinecolored_def split: option.splits)
      note hd = hexloop_colored_draw [OF h] and gd = glyphloop_colored_draw [OF g]
      have "\<forall>ch \<in> set buf. palette c1 ch = palette c' ch" using hd gd by simp
      then have hp: "hexpart = draw_hex cfg (palette c') 0 buf"
        using hd draw_hex_cong [of buf "palette c1" "palette c'" cfg 0] by simp
      have "out = draw_line cfg (palette c') buf pos"
        unfolding o using hp hd gd ne hex True by (simp add: draw_line_def)
      moreover have "\<forall>b. palette c b \<noteq> 0 \<longrightarrow> palette c' b = palette c b"
        using hd gd by auto
      moreover have "\<forall>ch \<in> set (shown cfg buf). palette c' ch \<noteq> 0"
        using gd hex True by (simp add: shown_def)
      ultimately show ?thesis by blast
    qed
  qed
qed

lemma emit_draw:
  "emit cfg evs c = Some (out, c') \<Longrightarrow>
     out = draw cfg (palette c') evs
     \<and> (\<forall>b. palette c b \<noteq> 0 \<longrightarrow> palette c' b = palette c b)
     \<and> (\<forall>ch \<in> set (observed cfg evs). palette c' ch \<noteq> 0)"
proof (induction evs arbitrary: c out c')
  case Nil
  then show ?case by simp
next
  case (Cons e evs)
  show ?case
  proof (cases e)
    case Marker
    with Cons.prems obtain out1 where
        r: "emit cfg evs c = Some (out1, c')" and o: "out = [Out 42, Out 10] @ out1"
      by (auto split: option.splits)
    from Cons.IH [OF r] Marker o show ?thesis by simp
  next
    case (Line buf pos)
    with Cons.prems obtain o1 c1 o2 where
        d: "dumpline cfg buf (length buf) pos c = Some (o1, c1)"
    and r: "emit cfg evs c1 = Some (o2, c')" and o: "out = o1 @ o2"
      by (auto split: option.splits)
    note dd = dumpline_draw [OF d]
    from Cons.IH [OF r] have
        ih1: "o2 = draw cfg (palette c') evs"
    and ih3: "\<forall>b. palette c1 b \<noteq> 0 \<longrightarrow> palette c' b = palette c1 b"
    and ih4: "\<forall>ch \<in> set (observed cfg evs). palette c' ch \<noteq> 0"
      by simp_all
    have "\<forall>ch \<in> set (shown cfg buf). palette c1 ch = palette c' ch" using dd ih3 by simp
    then have "o1 = draw_line cfg (palette c') buf pos"
      using dd draw_line_cong [of cfg buf "palette c1" "palette c'" pos] by simp
    then have "out = draw cfg (palette c') (e # evs)" using o ih1 Line by simp
    moreover have "\<forall>b. palette c b \<noteq> 0 \<longrightarrow> palette c' b = palette c b"
      using dd ih3 by auto
    moreover have "\<forall>ch \<in> set (observed cfg (e # evs)). palette c' ch \<noteq> 0"
      using Line ih4 dd ih3 by auto
    ultimately show ?thesis by blast
  qed
qed

lemma assigncolor_roomy:
  assumes "roomy c"
  shows "\<exists>c1. assigncolor ch c = Some c1 \<and> roomy c1"
proof (cases "palette c ch = 0")
  case False
  with assms show ?thesis by (simp add: assigncolor_def)
next
  case True
  let ?Z = "{b. palette c b = 0}"
  let ?n = "nextcolorfromset c"
  have fin: "finite ?Z" by simp
  have "ch \<in> ?Z" using True by simp
  then have pos: "0 < card ?Z" using fin card_gt_0_iff by blast
  then have n: "?n < length colorset" using assms by (simp add: roomy_def)
  let ?c1 = "c\<lparr> palette := (palette c)(ch := colorset ! ?n), nextcolorfromset := ?n + 1 \<rparr>"
  have a: "assigncolor ch c = Some ?c1" using True n by (simp add: assigncolor_def)
  have nz: "colorset ! ?n \<noteq> 0" using n colorset_nonzero by (simp add: length_colorset)
  have "{b. palette ?c1 b = 0} = ?Z - {ch}" using nz by auto
  then have "card {b. palette ?c1 b = 0} = card ?Z - 1" using \<open>ch \<in> ?Z\<close> by simp
  then have "roomy ?c1" using assms pos by (simp add: roomy_def)
  with a show ?thesis by blast
qed

lemma roomy_bound: "roomy c \<Longrightarrow> nextcolorfromset c \<le> length colorset"
  by (simp add: roomy_def)

lemma hexloop_colored_roomy:
  "roomy c \<Longrightarrow> \<exists>out x' c'. hexloop_colored cfg i buf x c = Some (out, x', c') \<and> roomy c'"
proof (induction buf arbitrary: i x c)
  case Nil
  then show ?case by simp
next
  case (Cons ch rest)
  from assigncolor_roomy [OF Cons.prems, of ch] obtain c1 where
    a: "assigncolor ch c = Some c1" and r: "roomy c1" by blast
  from Cons.IH [OF r, of "i + 1" "if i mod groupsize cfg = 0 then x - 1 else x"]
  obtain out x' c' where
    h: "hexloop_colored cfg (i + 1) rest (if i mod groupsize cfg = 0 then x - 1 else x) c1
          = Some (out, x', c')" and r': "roomy c'" by blast
  show ?case using a h r' by (cases "i mod groupsize cfg = 0") auto
qed

lemma glyphloop_colored_roomy:
  "roomy c \<Longrightarrow> \<exists>out c'. glyphloop_colored cfg buf c = Some (out, c') \<and> roomy c'"
proof (induction buf arbitrary: c)
  case Nil
  then show ?case by simp
next
  case (Cons ch rest)
  from assigncolor_roomy [OF Cons.prems, of ch] obtain c1 where
    a: "assigncolor ch c = Some c1" and r: "roomy c1" by blast
  from Cons.IH [OF r] obtain out c' where
    h: "glyphloop_colored cfg rest c1 = Some (out, c')" and r': "roomy c'" by blast
  show ?case using a h r' by auto
qed

lemma renderbytes_loop_roomy:
  "roomy c \<Longrightarrow> \<exists>out c'. renderbytes_loop cfg buf c = Some (out, c') \<and> roomy c'"
proof (induction buf arbitrary: c)
  case Nil
  then show ?case by simp
next
  case (Cons ch rest)
  show ?case
  proof (cases "isgraph ch")
    case False
    from Cons.IH [OF Cons.prems] obtain out c' where
      h: "renderbytes_loop cfg rest c = Some (out, c')" and r': "roomy c'" by blast
    then show ?thesis using False by auto
  next
    case True
    from assigncolor_roomy [OF Cons.prems, of ch] obtain c1 where
      a: "assigncolor ch c = Some c1" and r: "roomy c1" by blast
    from Cons.IH [OF r] obtain out c' where
      h: "renderbytes_loop cfg rest c1 = Some (out, c')" and r': "roomy c'" by blast
    show ?thesis using True a h r' by auto
  qed
qed

lemma dumpline_roomy:
  assumes "roomy c"
  shows "\<exists>out c'. dumpline cfg buf count pos c = Some (out, c') \<and> roomy c'"
proof -
  let ?b = "take count buf"
  from renderbytes_loop_roomy [OF assms, of cfg ?b] obtain o1 c1 where
    1: "renderbytes_loop cfg ?b c = Some (o1, c1)" "roomy c1" by blast
  from hexloop_colored_roomy [OF assms, of cfg 0 ?b "hexwidth cfg - 2 * int (length ?b)"]
  obtain o2 x2 c2 where
    2: "hexloop_colored cfg 0 ?b (hexwidth cfg - 2 * int (length ?b)) c = Some (o2, x2, c2)" "roomy c2"
    by blast
  from glyphloop_colored_roomy [OF 2(2), of cfg ?b] obtain o3 c3 where
    3: "glyphloop_colored cfg ?b c2 = Some (o3, c3)" "roomy c3" by blast
  show ?thesis
    using assms 1 2 3 by (auto simp: dumpline_def renderbytescolored_def renderlinecolored_def)
qed

lemma emit_roomy:
  "roomy c \<Longrightarrow> \<exists>out c'. emit cfg evs c = Some (out, c') \<and> roomy c'"
proof (induction evs arbitrary: c)
  case Nil
  then show ?case by simp
next
  case (Cons e evs)
  show ?case
  proof (cases e)
    case Marker
    from Cons.IH [OF Cons.prems] obtain out c' where
      "emit cfg evs c = Some (out, c')" "roomy c'" by blast
    then show ?thesis using Marker by auto
  next
    case (Line buf pos)
    from dumpline_roomy [OF Cons.prems, of cfg buf "length buf" pos] obtain o1 c1 where
      d: "dumpline cfg buf (length buf) pos c = Some (o1, c1)" and r: "roomy c1" by blast
    from Cons.IH [OF r] obtain o2 c' where
      "emit cfg evs c1 = Some (o2, c')" "roomy c'" by blast
    then show ?thesis using Line d by auto
  qed
qed

lemma card_zero_palette: "card {b::byte. ((\<lambda>_. 0::byte)(0 := v)) b = 0} \<le> 255" if "v \<noteq> 0"
proof -
  have "{b::byte. ((\<lambda>_. 0::byte)(0 := v)) b = 0} = UNIV - {0}" using that by auto
  then show ?thesis by (simp add: card_Diff_singleton card_word)
qed

lemma roomy_colors0: "roomy colors0"
proof -
  have "card {b::byte. True} \<le> 256" by (simp add: card_word)
  then show ?thesis by (simp add: roomy_def colors0_def length_colorset)
qed

lemma initoutput_roomy:
  assumes "initoutput cfg ti colors0 = Some (out0, c)"
  shows "roomy c"
proof (cases "colorize cfg")
  case False
  with assms roomy_colors0 show ?thesis by (simp add: initoutput_def)
next
  case True
  with assms have c: "c = colors0\<lparr> palette := (palette colors0)(0 := colorset ! 0), nextcolorfromset := 1 \<rparr>"
    by (auto simp: initoutput_def split: if_splits)
  have "colorset ! 0 \<noteq> 0" using colorset_nonzero [of 0] by simp
  from card_zero_palette [OF this] show ?thesis
    unfolding c by (simp add: roomy_def colors0_def length_colorset)
qed

lemma rendered_Some: "rendered r = Some (out, c') \<Longrightarrow> \<exists>s'. r = Some (out, c', s')"
  by (cases r) (auto simp: rendered_def)

lemma dump_roomy:
  assumes "valid_settings cfg" "length line0 = 256" "roomy c"
  shows "\<exists>out c' s'. dump cfg line0 s c = Some (out, c', s') \<and> roomy c'"
proof -
  let ?evs = "(if autoskip cfg then autoskip_events else plain_events) (linesize cfg)
                         (int (startoffset s))
                         (take (maxinputlen s) (drop (startoffset s) (instream s)))"
  have L: "1 \<le> linesize cfg" "linesize cfg \<le> 256" "linesize cfg \<le> length line0"
    using valid_settings_linesize [OF assms(1)] assms(2) by simp_all
  from emit_roomy [OF assms(3), of cfg ?evs] obtain out c' where
    e: "emit cfg ?evs c = Some (out, c')" and r: "roomy c'" by blast
  have "rendered (dump cfg line0 s c) = Some (out, c')"
    using dump_events [OF L, of s c] e by simp
  from rendered_Some [OF this] r show ?thesis by blast
qed


lemma valid_color_settings: "valid_settings color_settings"
  by (simp add: valid_settings_def color_settings_def default_settings_def calc_default)

lemma initoutput_colors_init: "initoutput color_settings xterm colors0 = Some (xterm_is2, colors_init)"
  by (simp add: initoutput_def color_settings_def default_settings_def colors0_def colors_init_def
        xterm_def xterm_is2_def putseq_def)


text \<open>
  C5. A palette entry that has been assigned is not zero and is never written again: every
  later state of the palette has the same colour there. The whole output of a run is the
  one that a fixed palette, the final one, gives: every rendering of a byte value, in any
  line and in any of the renderers, shows it in the colour the palette holds for it, however
  many lines lie between two occurrences.
\<close>

theorem palette_never_changes:
  "(\<forall>ch c c1. assigncolor ch c = Some c1 \<longrightarrow>
       palette c1 ch \<noteq> 0 \<and> (\<forall>b. palette c b \<noteq> 0 \<longrightarrow> palette c1 b = palette c b))
   \<and> (\<forall>cfg evs c out c'. emit cfg evs c = Some (out, c') \<longrightarrow>
       out = draw cfg (palette c') evs \<and> (\<forall>b. palette c b \<noteq> 0 \<longrightarrow> palette c' b = palette c b))
   \<and> (\<forall>cfg line0 s c out c' s'.
         valid_settings cfg \<and> length line0 = 256 \<and> dump cfg line0 s c = Some (out, c', s') \<longrightarrow>
         (\<exists>evs. out = draw cfg (palette c') evs)
         \<and> (\<forall>b. palette c b \<noteq> 0 \<longrightarrow> palette c' b = palette c b))"
proof (intro conjI allI impI)
  fix ch c c1 assume "assigncolor ch c = Some c1"
  from assigncolor_keeps [OF this]
  show "palette c1 ch \<noteq> 0" and "\<And>b. palette c b \<noteq> 0 \<Longrightarrow> palette c1 b = palette c b"
    by simp_all
next
  fix cfg evs c out c' assume "emit cfg evs c = Some (out, c')"
  from emit_draw [OF this]
  show "out = draw cfg (palette c') evs" and "\<And>b. palette c b \<noteq> 0 \<Longrightarrow> palette c' b = palette c b"
    by simp_all
next
  fix cfg line0 s c out c' s'
  assume a: "valid_settings cfg \<and> length line0 = 256 \<and> dump cfg line0 s c = Some (out, c', s')"
  then have v: "valid_settings cfg" and l: "length line0 = 256"
    and d: "dump cfg line0 s c = Some (out, c', s')" by simp_all
  let ?evs = "(if autoskip cfg then autoskip_events else plain_events) (linesize cfg)
                         (int (startoffset s))
                         (take (maxinputlen s) (drop (startoffset s) (instream s)))"
  have L: "1 \<le> linesize cfg" "linesize cfg \<le> 256" "linesize cfg \<le> length line0"
    using valid_settings_linesize [OF v] l by simp_all
  have "emit cfg ?evs c = Some (out, c')"
    using dump_events [OF L, of s c] d by simp
  from emit_draw [OF this]
  show "\<exists>evs. out = draw cfg (palette c') evs" and "\<And>b. palette c b \<noteq> 0 \<Longrightarrow> palette c' b = palette c b"
    by auto
qed


lemma roomy_colors_init: "roomy colors_init"
  using initoutput_roomy [OF initoutput_colors_init] .

theorem palette_never_changes_witness:
  "(\<exists>out c'. emit color_settings [Line [65, 66] 0, Line [65] 2] colors_init = Some (out, c')
      \<and> out = draw color_settings (palette c') [Line [65, 66] 0, Line [65] 2]
      \<and> palette c' 0 = palette colors_init 0 \<and> palette colors_init 0 \<noteq> 0)
   \<and> (\<exists>c1. assigncolor 65 colors_init = Some c1 \<and> palette c1 65 \<noteq> 0
           \<and> palette c1 0 = palette colors_init 0)
   \<and> valid_settings color_settings \<and> length (replicate 256 (0::byte)) = 256
   \<and> (\<exists>out c' s'. dump color_settings (replicate 256 0) twofiles colors_init = Some (out, c', s')
         \<and> (\<exists>evs. out = draw color_settings (palette c') evs)
         \<and> palette c' 0 = palette colors_init 0)"
proof -
  note t = palette_never_changes
  note t1 = t [THEN conjunct1, rule_format]
  note t2 = t [THEN conjunct2, THEN conjunct1, rule_format]
  note t3 = t [THEN conjunct2, THEN conjunct2, rule_format]
  obtain out c' where e: "emit color_settings [Line [65, 66] 0, Line [65] 2] colors_init = Some (out, c')"
    using emit_roomy [OF roomy_colors_init] by blast
  have z: "palette colors_init 0 \<noteq> 0"
    using colorset_nonzero [of 0] by (simp add: colors_init_def)
  from t2 [OF e] z
  have 1: "out = draw color_settings (palette c') [Line [65, 66] 0, Line [65] 2]
      \<and> palette c' 0 = palette colors_init 0" by blast
  obtain c1 where a: "assigncolor 65 colors_init = Some c1"
    using assigncolor_roomy [OF roomy_colors_init] by blast
  from t1 [OF a] z have 2: "palette c1 65 \<noteq> 0 \<and> palette c1 0 = palette colors_init 0" by blast
  have l: "length (replicate 256 (0::byte)) = 256" by simp
  obtain out2 c2 s2 where
    d: "dump color_settings (replicate 256 0) twofiles colors_init = Some (out2, c2, s2)"
    using dump_roomy [OF valid_color_settings l roomy_colors_init] by blast
  from t3 [of color_settings "replicate 256 0" twofiles colors_init out2 c2 s2]
       valid_color_settings l d z
  have 3: "(\<exists>evs. out2 = draw color_settings (palette c2) evs) \<and> palette c2 0 = palette colors_init 0"
    by blast
  from e 1 z a 2 valid_color_settings l d 3 show ?thesis by blast
qed

text \<open>
  C9. The colour set has 256 entries. From start-up on, the index of the next unused colour
  plus the number of unassigned bytes never exceeds 256: an assignment needs an unassigned
  byte, so it reads the colour set within bounds, and it uses up one of them for good, an
  assigned entry being non-zero. So no sequence of lines makes a renderer fault, the index
  never exceeds 256, and the program returns normally for every input and every setting
  the option parser can produce, also when all 256 byte values occur.
\<close>

theorem palette_never_overflows:
  "length colorset = 256
   \<and> roomy colors0
   \<and> (\<forall>cfg ti out0 c. initoutput cfg ti colors0 = Some (out0, c) \<longrightarrow> roomy c)
   \<and> (\<forall>c. roomy c \<longrightarrow> nextcolorfromset c \<le> 256)
   \<and> (\<forall>c ch. roomy c \<longrightarrow> (palette c ch = 0 \<longrightarrow> nextcolorfromset c < length colorset)
                         \<and> (\<exists>c1. assigncolor ch c = Some c1 \<and> roomy c1))
   \<and> (\<forall>cfg evs c. roomy c \<longrightarrow> (\<exists>out c'. emit cfg evs c = Some (out, c') \<and> roomy c'))
   \<and> (\<forall>cfg ti line0 s out0 c.
         valid_settings cfg \<and> length line0 = 256 \<and> initoutput cfg ti colors0 = Some (out0, c) \<longrightarrow>
         (\<exists>out c' s'. dump cfg line0 s c = Some (out, c', s') \<and> nextcolorfromset c' \<le> 256))
   \<and> (\<forall>cfg0 cfg ti line0 s.
         parsecommandline_finish cfg0 = Some cfg \<and> linesize cfg0 \<le> 255 \<and> groupsize cfg0 < 2 ^ 31
         \<and> (colorize cfg \<longrightarrow> colorterm ti) \<and> length line0 = 256 \<longrightarrow>
         main cfg0 ti line0 s \<noteq> None)"
proof (intro conjI allI impI)
  show "length colorset = 256" by (rule length_colorset)
  show "roomy colors0" by (rule roomy_colors0)
next
  fix cfg ti out0 c assume "initoutput cfg ti colors0 = Some (out0, c)"
  then show "roomy c" by (rule initoutput_roomy)
next
  fix c assume "roomy c"
  then show "nextcolorfromset c \<le> 256" using roomy_bound [of c] by (simp add: length_colorset)
next
  fix c ch assume r: "roomy c"
  show "\<exists>c1. assigncolor ch c = Some c1 \<and> roomy c1" by (rule assigncolor_roomy [OF r])
  assume "palette c ch = 0"
  then show "nextcolorfromset c < length colorset"
    using assigncolor_roomy [OF r, of ch] by (auto simp: assigncolor_def split: if_splits)
next
  fix cfg evs c assume "roomy c"
  then show "\<exists>out c'. emit cfg evs c = Some (out, c') \<and> roomy c'" by (rule emit_roomy)
next
  fix cfg ti and line0 :: "byte list" and s out0 c
  assume a: "valid_settings cfg \<and> length line0 = 256 \<and> initoutput cfg ti colors0 = Some (out0, c)"
  then have r: "roomy c" using initoutput_roomy by blast
  from dump_roomy [of cfg line0 c s] a r obtain out c' s' where
    "dump cfg line0 s c = Some (out, c', s')" "roomy c'" by blast
  then show "\<exists>out c' s'. dump cfg line0 s c = Some (out, c', s') \<and> nextcolorfromset c' \<le> 256"
    using roomy_bound [of c'] by (auto simp: length_colorset)
next
  fix cfg0 cfg ti and line0 :: "byte list" and s
  assume a: "parsecommandline_finish cfg0 = Some cfg \<and> linesize cfg0 \<le> 255 \<and> groupsize cfg0 < 2 ^ 31
         \<and> (colorize cfg \<longrightarrow> colorterm ti) \<and> length line0 = 256"
  then have v: "valid_settings cfg" using parsecommandline_finish_valid by blast
  have "\<exists>out0 c. initoutput cfg ti colors0 = Some (out0, c)"
    using a by (cases "colorize cfg") (simp_all add: initoutput_def colorterm_def)
  then obtain out0 c where i: "initoutput cfg ti colors0 = Some (out0, c)" by blast
  from dump_roomy [OF v _ initoutput_roomy [OF i], of line0 s] a obtain out c' s' where
    "dump cfg line0 s c = Some (out, c', s')" by blast
  then show "main cfg0 ti line0 s \<noteq> None" using a i by (simp add: main_def)
qed

theorem palette_never_overflows_witness:
  "initoutput color_settings xterm colors0 = Some (xterm_is2, colors_init)
   \<and> (\<exists>out c'. emit color_settings [Line all_bytes 0] colors_init = Some (out, c')
                \<and> nextcolorfromset c' \<le> 256)
   \<and> valid_settings color_settings \<and> length (replicate 256 (0::byte)) = 256
   \<and> (\<exists>out c' s'. dump color_settings (replicate 256 0) twofiles colors_init = Some (out, c', s')
                \<and> nextcolorfromset c' \<le> 256)
   \<and> parsecommandline_finish default_settings = Some color_settings
   \<and> colorterm xterm
   \<and> main default_settings xterm (replicate 256 0) twofiles \<noteq> None"
proof -
  note t = palette_never_overflows
  note t3 = t [THEN conjunct2, THEN conjunct2, THEN conjunct1, rule_format]
  note t4 = t [THEN conjunct2, THEN conjunct2, THEN conjunct2, THEN conjunct1, rule_format]
  note t6 = t [THEN conjunct2, THEN conjunct2, THEN conjunct2, THEN conjunct2, THEN conjunct2,
               THEN conjunct1, rule_format]
  note t7 = t [THEN conjunct2, THEN conjunct2, THEN conjunct2, THEN conjunct2, THEN conjunct2,
               THEN conjunct2, THEN conjunct1, rule_format]
  note t8 = t [THEN conjunct2, THEN conjunct2, THEN conjunct2, THEN conjunct2, THEN conjunct2,
               THEN conjunct2, THEN conjunct2, rule_format]
  have r: "roomy colors_init" by (rule t3 [OF initoutput_colors_init])
  from t6 [OF r, of color_settings "[Line all_bytes 0]"] obtain out c' where
    e: "emit color_settings [Line all_bytes 0] colors_init = Some (out, c')" and r': "roomy c'"
    by blast
  have l: "length (replicate 256 (0::byte)) = 256" by simp
  have 2: "\<exists>out c' s'. dump color_settings (replicate 256 0) twofiles colors_init = Some (out, c', s')
                \<and> nextcolorfromset c' \<le> 256"
    using t7 [of color_settings "replicate 256 0" xterm xterm_is2 colors_init twofiles]
          valid_color_settings l initoutput_colors_init by blast
  have p: "parsecommandline_finish default_settings = Some color_settings"
    by (simp add: parsecommandline_finish_def default_settings_def color_settings_def calc_default)
  have x: "colorterm xterm" by (simp add: colorterm_def xterm_def)
  have 3: "main default_settings xterm (replicate 256 0) twofiles \<noteq> None"
    using t8 [of default_settings color_settings xterm "replicate 256 0" twofiles] p l x
    by (simp add: default_settings_def)
  from t4 [OF r'] e initoutput_colors_init valid_color_settings l 2 p x 3 show ?thesis by blast
qed

lemma byte_list_bound:
  assumes "distinct (xs :: byte list)" "0 \<notin> set xs" "ch \<notin> set xs" "ch \<noteq> 0"
  shows "length xs \<le> 254"
proof -
  have "set xs \<subseteq> UNIV - {0, ch}" using assms by auto
  then have "card (set xs) \<le> card (UNIV - {0, ch} :: byte set)"
    by (intro card_mono) simp_all
  also have "\<dots> = 254" using assms(4) by (simp add: card_Diff_insert card_word)
  finally show ?thesis using assms(1) by (simp add: distinct_card)
qed

lemma assigncolor_palette_of:
  assumes "palette_of c seen"
  shows "\<exists>c1. assigncolor ch c = Some c1 \<and> palette_of c1 (observe ch seen)"
proof -
  from assms have d: "distinct seen" and z: "0 \<notin> set seen"
    and n: "nextcolorfromset c = length seen + 1"
    and p0: "palette c 0 = colorset ! 0"
    and ps: "\<And>i. i < length seen \<Longrightarrow> palette c (seen ! i) = colorset ! (i + 1)"
    and pz: "\<And>b. b \<noteq> 0 \<Longrightarrow> b \<notin> set seen \<Longrightarrow> palette c b = 0"
    by (simp_all add: palette_of_def)
  have len: "length seen \<le> 255"
  proof -
    have "set seen \<subseteq> UNIV - {0}" using z by auto
    then have "card (set seen) \<le> card (UNIV - {0} :: byte set)" by (intro card_mono) simp_all
    then show ?thesis using d by (simp add: distinct_card card_word)
  qed
  show ?thesis
  proof (cases "ch = 0 \<or> ch \<in> set seen")
    case True
    have "palette c ch \<noteq> 0"
    proof (cases "ch = 0")
      case True
      then show ?thesis using p0 colorset_nonzero [of 0] by simp
    next
      case False
      with True obtain i where i: "i < length seen" "seen ! i = ch"
        by (auto simp: in_set_conv_nth)
      then have "palette c ch = colorset ! (i + 1)" using ps by blast
      moreover have "i + 1 < 256" using i len by simp
      ultimately show ?thesis using colorset_nonzero by simp
    qed
    then have "assigncolor ch c = Some c" by (simp add: assigncolor_def)
    moreover have "observe ch seen = seen" using True by (simp add: observe_def)
    ultimately show ?thesis using assms by simp
  next
    case False
    then have c0: "ch \<noteq> 0" and cn: "ch \<notin> set seen" by simp_all
    have un: "palette c ch = 0" using pz c0 cn by blast
    have l254: "length seen \<le> 254" by (rule byte_list_bound [OF d z cn c0])
    then have nb: "nextcolorfromset c < length colorset" using n by (simp add: length_colorset)
    let ?c1 = "c\<lparr> palette := (palette c)(ch := colorset ! nextcolorfromset c),
                  nextcolorfromset := nextcolorfromset c + 1 \<rparr>"
    have a: "assigncolor ch c = Some ?c1" using un nb by (simp add: assigncolor_def)
    have o: "observe ch seen = seen @ [ch]" using False by (simp add: observe_def)
    have "palette_of ?c1 (seen @ [ch])"
      unfolding palette_of_def
    proof (intro conjI allI impI)
      show "distinct (seen @ [ch])" using d cn by simp
      show "0 \<notin> set (seen @ [ch])" using z c0 by simp
      show "nextcolorfromset ?c1 = length (seen @ [ch]) + 1" using n by simp
      show "palette ?c1 0 = colorset ! 0" using p0 c0 by simp
    next
      fix i assume i: "i < length (seen @ [ch])"
      show "palette ?c1 ((seen @ [ch]) ! i) = colorset ! (i + 1)"
      proof (cases "i < length seen")
        case True
        then have "seen ! i \<noteq> ch" using cn nth_mem by metis
        then show ?thesis using True ps by (simp add: nth_append)
      next
        case False
        then have "i = length seen" using i by simp
        then show ?thesis using n by (simp add: nth_append)
      qed
    next
      fix b assume "b \<noteq> 0 \<and> b \<notin> set (seen @ [ch])"
      then show "palette ?c1 b = 0" using pz by simp
    qed
    with a o show ?thesis by simp
  qed
qed

lemma hexloop_colored_palette_of:
  "palette_of c seen \<Longrightarrow>
     \<exists>out x' c'. hexloop_colored cfg i buf x c = Some (out, x', c')
                 \<and> palette_of c' (fold observe buf seen)"
proof (induction buf arbitrary: i x c seen)
  case Nil
  then show ?case by simp
next
  case (Cons ch rest)
  from assigncolor_palette_of [OF Cons.prems, of ch] obtain c1 where
    a: "assigncolor ch c = Some c1" and r: "palette_of c1 (observe ch seen)" by blast
  from Cons.IH [OF r, of "i + 1" "if i mod groupsize cfg = 0 then x - 1 else x"]
  obtain out x' c' where
    h: "hexloop_colored cfg (i + 1) rest (if i mod groupsize cfg = 0 then x - 1 else x) c1
          = Some (out, x', c')" and r': "palette_of c' (fold observe rest (observe ch seen))" by blast
  show ?case using a h r' by (cases "i mod groupsize cfg = 0") auto
qed

lemma glyphloop_colored_palette_of:
  "palette_of c seen \<Longrightarrow>
     \<exists>out c'. glyphloop_colored cfg buf c = Some (out, c') \<and> palette_of c' (fold observe buf seen)"
proof (induction buf arbitrary: c seen)
  case Nil
  then show ?case by simp
next
  case (Cons ch rest)
  from assigncolor_palette_of [OF Cons.prems, of ch] obtain c1 where
    a: "assigncolor ch c = Some c1" and r: "palette_of c1 (observe ch seen)" by blast
  from Cons.IH [OF r] obtain out c' where
    h: "glyphloop_colored cfg rest c1 = Some (out, c')"
    and r': "palette_of c' (fold observe rest (observe ch seen))" by blast
  show ?case using a h r' by auto
qed

lemma renderbytes_loop_palette_of:
  "palette_of c seen \<Longrightarrow>
     \<exists>out c'. renderbytes_loop cfg buf c = Some (out, c')
             \<and> palette_of c' (fold observe (filter isgraph buf) seen)"
proof (induction buf arbitrary: c seen)
  case Nil
  then show ?case by simp
next
  case (Cons ch rest)
  show ?case
  proof (cases "isgraph ch")
    case False
    from Cons.IH [OF Cons.prems] obtain out c' where
      h: "renderbytes_loop cfg rest c = Some (out, c')"
      and r': "palette_of c' (fold observe (filter isgraph rest) seen)" by blast
    then show ?thesis using False by auto
  next
    case True
    from assigncolor_palette_of [OF Cons.prems, of ch] obtain c1 where
      a: "assigncolor ch c = Some c1" and r: "palette_of c1 (observe ch seen)" by blast
    from Cons.IH [OF r] obtain out c' where
      h: "renderbytes_loop cfg rest c1 = Some (out, c')"
      and r': "palette_of c' (fold observe (filter isgraph rest) (observe ch seen))" by blast
    show ?thesis using True a h r' by auto
  qed
qed

lemma set_fold_observe: "set (fold observe bs seen) = set seen \<union> (set bs - {0})"
  by (induction bs arbitrary: seen) (auto simp: observe_def)

lemma fold_observe_known: "set bs \<subseteq> insert 0 (set seen) \<Longrightarrow> fold observe bs seen = seen"
  by (induction bs arbitrary: seen) (auto simp: observe_def)

lemma fold_observe_twice: "fold observe bs (fold observe bs seen) = fold observe bs seen"
  by (rule fold_observe_known) (auto simp: set_fold_observe)

lemma dumpline_palette_of:
  assumes "palette_of c seen"
  shows "\<exists>out c'. dumpline cfg buf (length buf) pos c = Some (out, c')
             \<and> palette_of c' (fold observe (shown cfg buf) seen)"
proof (cases "buf = []")
  case True
  with assms show ?thesis by (simp add: dumpline_def shown_def)
next
  case ne: False
  show ?thesis
  proof (cases "hexoutput cfg")
    case False
    from renderbytes_loop_palette_of [OF assms, of cfg buf] obtain o1 c1 where
      "renderbytes_loop cfg buf c = Some (o1, c1)"
      "palette_of c1 (fold observe (filter isgraph buf) seen)" by blast
    then show ?thesis using False ne
      by (simp add: dumpline_def renderbytescolored_def shown_def)
  next
    case hex: True
    show ?thesis
    proof (cases "colorize cfg")
      case False
      with assms hex ne show ?thesis by (simp add: dumpline_def shown_def)
    next
      case True
      from hexloop_colored_palette_of [OF assms, of cfg 0 buf "hexwidth cfg - 2 * int (length buf)"]
      obtain o2 x2 c2 where
        2: "hexloop_colored cfg 0 buf (hexwidth cfg - 2 * int (length buf)) c = Some (o2, x2, c2)"
           "palette_of c2 (fold observe buf seen)" by blast
      from glyphloop_colored_palette_of [OF 2(2), of cfg buf] obtain o3 c3 where
        3: "glyphloop_colored cfg buf c2 = Some (o3, c3)"
           "palette_of c3 (fold observe buf (fold observe buf seen))" by blast
      show ?thesis using 2 3 hex True ne
        by (simp add: dumpline_def renderlinecolored_def shown_def fold_observe_twice)
    qed
  qed
qed

lemma emit_palette_of:
  "palette_of c seen \<Longrightarrow>
     \<exists>out c'. emit cfg evs c = Some (out, c') \<and> palette_of c' (fold observe (observed cfg evs) seen)"
proof (induction evs arbitrary: c seen)
  case Nil
  then show ?case by simp
next
  case (Cons e evs)
  show ?case
  proof (cases e)
    case Marker
    from Cons.IH [OF Cons.prems] obtain out c' where
      "emit cfg evs c = Some (out, c')" "palette_of c' (fold observe (observed cfg evs) seen)"
      by blast
    then show ?thesis using Marker by auto
  next
    case (Line buf pos)
    from dumpline_palette_of [OF Cons.prems, of cfg buf pos] obtain o1 c1 where
      d: "dumpline cfg buf (length buf) pos c = Some (o1, c1)"
      and r: "palette_of c1 (fold observe (shown cfg buf) seen)" by blast
    from Cons.IH [OF r] obtain o2 c' where
      "emit cfg evs c1 = Some (o2, c')"
      "palette_of c' (fold observe (observed cfg evs) (fold observe (shown cfg buf) seen))" by blast
    then show ?thesis using Line d by auto
  qed
qed

lemma initoutput_palette_of:
  assumes "colorize cfg" "initoutput cfg ti colors0 = Some (out0, c)"
  shows "palette_of c []"
  using assms by (auto simp: initoutput_def palette_of_def colors0_def split: if_splits)

lemma first_seen_props:
  "distinct (first_seen bs) \<and> set (first_seen bs) = set bs - {0}"
proof -
  have "distinct seen \<Longrightarrow> distinct (fold observe bs seen)" for seen
    by (induction bs arbitrary: seen) (auto simp: observe_def)
  then show ?thesis by (simp add: first_seen_def set_fold_observe)
qed

lemma observed_plain_events:
  "hexoutput cfg \<Longrightarrow> colorize cfg \<Longrightarrow>
     observed cfg (plain_events L pos xs) = (if L = 0 then [] else xs)"
proof (induction L pos xs rule: plain_events.induct)
  case (1 L pos xs)
  show ?case
  proof (cases "L = 0 \<or> xs = []")
    case True
    then show ?thesis by (auto simp: plain_events.simps [of L pos xs])
  next
    case False
    with "1.IH" [OF False "1.prems"] show ?thesis using "1.prems"
      by (simp add: plain_events.simps [of L pos xs] shown_def)
  qed
qed


text \<open>
  C6 (as amended). Byte value zero is given the first colour of the set at start-up, whether
  it occurs or not. The colours that follow are allocated strictly in the order of first
  observation: the i-th distinct non-zero byte value that the renderer meets (reading the
  rendered chunks from left to right) receives the entry with index i of the colour set, so
  the first of them receives the second entry. For a colourised hex dump without autoskip
  these are the distinct non-zero bytes of the dumped range in the order of their first
  occurrence.
\<close>

theorem first_seen_allocation:
  assumes "colorize cfg" and "initoutput cfg ti colors0 = Some (out0, c)"
  shows "(\<exists>out c'. emit cfg evs c = Some (out, c')
            \<and> palette c' 0 = colorset ! 0
            \<and> nextcolorfromset c' = length (first_seen (observed cfg evs)) + 1
            \<and> (\<forall>i < length (first_seen (observed cfg evs)).
                  palette c' (first_seen (observed cfg evs) ! i) = colorset ! (i + 1))
            \<and> (\<forall>b. b \<noteq> 0 \<and> b \<notin> set (first_seen (observed cfg evs)) \<longrightarrow> palette c' b = 0))
       \<and> distinct (first_seen (observed cfg evs))
       \<and> set (first_seen (observed cfg evs)) = set (observed cfg evs) - {0}
       \<and> (valid_settings cfg \<and> hexoutput cfg \<and> \<not> autoskip cfg \<and> length line0 = 256 \<longrightarrow>
            (\<exists>out c' s'. dump cfg line0 s c = Some (out, c', s')
               \<and> palette_of c' (first_seen (take (maxinputlen s) (drop (startoffset s) (instream s))))))"
proof (intro conjI impI)
  have p: "palette_of c []" by (rule initoutput_palette_of [OF assms])
  from emit_palette_of [OF p, of cfg evs] obtain out c' where
    e: "emit cfg evs c = Some (out, c')" and r: "palette_of c' (first_seen (observed cfg evs))"
    by (auto simp: first_seen_def)
  from r have "palette c' 0 = colorset ! 0
            \<and> nextcolorfromset c' = length (first_seen (observed cfg evs)) + 1
            \<and> (\<forall>i < length (first_seen (observed cfg evs)).
                  palette c' (first_seen (observed cfg evs) ! i) = colorset ! (i + 1))
            \<and> (\<forall>b. b \<noteq> 0 \<and> b \<notin> set (first_seen (observed cfg evs)) \<longrightarrow> palette c' b = 0)"
    by (simp add: palette_of_def)
  with e show "\<exists>out c'. emit cfg evs c = Some (out, c')
            \<and> palette c' 0 = colorset ! 0
            \<and> nextcolorfromset c' = length (first_seen (observed cfg evs)) + 1
            \<and> (\<forall>i < length (first_seen (observed cfg evs)).
                  palette c' (first_seen (observed cfg evs) ! i) = colorset ! (i + 1))
            \<and> (\<forall>b. b \<noteq> 0 \<and> b \<notin> set (first_seen (observed cfg evs)) \<longrightarrow> palette c' b = 0)"
    by blast
  show "distinct (first_seen (observed cfg evs))"
   and "set (first_seen (observed cfg evs)) = set (observed cfg evs) - {0}"
    using first_seen_props by blast+
next
  assume a: "valid_settings cfg \<and> hexoutput cfg \<and> \<not> autoskip cfg \<and> length line0 = 256"
  let ?xs = "take (maxinputlen s) (drop (startoffset s) (instream s))"
  let ?evs = "plain_events (linesize cfg) (int (startoffset s)) ?xs"
  have L: "1 \<le> linesize cfg" "linesize cfg \<le> 256" "linesize cfg \<le> length line0"
    using valid_settings_linesize [of cfg] a by simp_all
  have p: "palette_of c []" by (rule initoutput_palette_of [OF assms])
  have ob: "observed cfg ?evs = ?xs"
    using observed_plain_events [of cfg "linesize cfg" "int (startoffset s)" ?xs] a assms(1) L(1)
    by simp
  from emit_palette_of [OF p, of cfg ?evs] obtain out c' where
    e: "emit cfg ?evs c = Some (out, c')" and r: "palette_of c' (first_seen ?xs)"
    unfolding ob by (auto simp: first_seen_def)
  have "rendered (dump cfg line0 s c) = Some (out, c')"
    using dump_events [OF L, of s c] e a by simp
  from rendered_Some [OF this] r
  show "\<exists>out c' s'. dump cfg line0 s c = Some (out, c', s') \<and> palette_of c' (first_seen ?xs)"
    by blast
qed


lemma colorset_first_two: "colorset ! 0 = 8 \<and> colorset ! 1 = 11"
  by (simp add: colorset_def)

theorem first_seen_allocation_witness:
  "colorize color_settings \<and> initoutput color_settings xterm colors0 = Some (xterm_is2, colors_init)
   \<and> first_seen (observed color_settings [Line [66, 0, 65] 0, Line [65, 67] 3]) = [66, 65, 67]
   \<and> (\<exists>out c'. emit color_settings [Line [66, 0, 65] 0, Line [65, 67] 3] colors_init = Some (out, c')
         \<and> palette c' 0 = colorset ! 0 \<and> palette c' 66 = colorset ! 1
         \<and> palette c' 65 = colorset ! 2 \<and> palette c' 67 = colorset ! 3
         \<and> nextcolorfromset c' = 4)
   \<and> valid_settings color_settings \<and> hexoutput color_settings \<and> \<not> autoskip color_settings
   \<and> length (replicate 256 (0::byte)) = 256
   \<and> (\<exists>out c' s'. dump color_settings (replicate 256 0) twofiles colors_init = Some (out, c', s')
         \<and> palette_of c' [3, 4, 5])"
proof -
  let ?evs = "[Line [66, 0, 65] 0, Line [65, 67] 3]"
  have cz: "colorize color_settings" "hexoutput color_settings" "\<not> autoskip color_settings"
    by (simp_all add: color_settings_def default_settings_def)
  have f: "first_seen (observed color_settings ?evs) = [66, 65, 67]"
    by (simp add: first_seen_def observe_def shown_def color_settings_def default_settings_def)
  from first_seen_allocation [OF cz(1) initoutput_colors_init, of ?evs, THEN conjunct1]
  obtain out c' where e: "emit color_settings ?evs colors_init = Some (out, c')"
    and p0: "palette c' 0 = colorset ! 0"
    and n: "nextcolorfromset c' = length [66, 65, 67 :: byte] + 1"
    and ps: "\<forall>i < length [66, 65, 67 :: byte]. palette c' ([66, 65, 67] ! i) = colorset ! (i + 1)"
    unfolding f by blast
  have "palette c' 66 = colorset ! 1" using ps [rule_format, of 0] by simp
  moreover have "palette c' 65 = colorset ! 2" using ps [rule_format, of 1] by (simp add: eval_nat_numeral)
  moreover have "palette c' 67 = colorset ! 3" using ps [rule_format, of 2] by (simp add: eval_nat_numeral)
  moreover have "nextcolorfromset c' = 4" using n by simp
  ultimately have 1: "\<exists>out c'. emit color_settings ?evs colors_init = Some (out, c')
         \<and> palette c' 0 = colorset ! 0 \<and> palette c' 66 = colorset ! 1
         \<and> palette c' 65 = colorset ! 2 \<and> palette c' 67 = colorset ! 3
         \<and> nextcolorfromset c' = 4" using e p0 by blast
  have l: "length (replicate 256 (0::byte)) = 256" by simp
  have r: "first_seen (take (maxinputlen twofiles) (drop (startoffset twofiles) (instream twofiles)))
             = [3, 4, 5]"
    unfolding instream_twofiles by (simp add: twofiles_def first_seen_def observe_def)
  from first_seen_allocation [OF cz(1) initoutput_colors_init, of ?evs "replicate 256 0" twofiles,
         THEN conjunct2, THEN conjunct2, THEN conjunct2, rule_format]
       valid_color_settings cz l
  have 2: "\<exists>out c' s'. dump color_settings (replicate 256 0) twofiles colors_init = Some (out, c', s')
         \<and> palette_of c' [3, 4, 5]"
    unfolding r by blast
  from cz initoutput_colors_init f 1 valid_color_settings l 2 show ?thesis by blast
qed


text \<open>
  The claim as stated fails: after start-up the first byte value observed, here 0x41, is
  given the second entry of the colour set (11), not the first (8), which byte zero holds.
\<close>

theorem first_byte_gets_second_slot:
  "initoutput color_settings xterm colors0 = Some (xterm_is2, colors_init)
   \<and> assigncolor 65 colors_init
       = Some (colors_init\<lparr> palette := (palette colors_init)(65 := colorset ! 1),
                            nextcolorfromset := 2 \<rparr>)
   \<and> colorset ! 1 = 11 \<and> colorset ! 0 = 8
   \<and> dumpline color_settings [65] 1 0 colors_init
       = Some (Sgr0 # hex8 0 @ str '':'' @ [Out 32, Setaf (colorset ! 1)] @ hex2 65
               @ Sgr0 # pad 37 @ str ''  '' @ [Setaf (colorset ! 1), Out 65, Sgr0, Out 10],
               colors_init\<lparr> palette := (palette colors_init)(65 := colorset ! 1),
                            nextcolorfromset := 2 \<rparr>)"
proof -
  define c1 where "c1 = colors_init\<lparr> palette := (palette colors_init)(65 := colorset ! 1),
                            nextcolorfromset := 2 \<rparr>"
  have n: "colorset ! 1 \<noteq> 0" using colorset_nonzero [of 1] by simp
  have a: "assigncolor 65 colors_init = Some c1"
    by (simp add: assigncolor_def colors_init_def length_colorset c1_def)
  have pc: "palette c1 65 = colorset ! 1" by (simp add: c1_def)
  have a2: "assigncolor 65 c1 = Some c1"
    using n by (simp add: assigncolor_def pc)
  have s: "hexoutput color_settings" "colorize color_settings" "groupsize color_settings = 2"
          "hexwidth color_settings = 40" "useunicode color_settings"
    by (simp_all add: color_settings_def default_settings_def)
  have g: "getbyterepresentation True 65 = [65]" by (simp add: getbyterepresentation_def)
  have d: "dumpline color_settings [65] 1 0 colors_init
       = Some (Sgr0 # hex8 0 @ str '':'' @ [Out 32, Setaf (colorset ! 1)] @ hex2 65
               @ Sgr0 # pad 37 @ str ''  '' @ [Setaf (colorset ! 1), Out 65, Sgr0, Out 10], c1)"
    by (simp add: dumpline_def renderlinecolored_def a a2 pc s g)
  show ?thesis using initoutput_colors_init a d colorset_first_two unfolding c1_def by simp
qed

section \<open>Alignment of the glyph column\<close>

text \<open>
  C7 (as amended). For settings the option parser can produce with
  \<open>linesize + groupsize \<le> INT_MAX\<close> (so that the hex width is computed without overflow)
  and every chunk of n bytes, \<open>1 \<le> n \<le> linesize\<close>: the hex width is
  \<open>2 * linesize + ceil (linesize / groupsize)\<close>. The hex loop prints the hex column, which
  takes \<open>2 * n + ceil (n / groupsize)\<close> columns and ends with the last hex digit, and
  leaves the counter x at \<open>hexwidth - 2 * n - ceil (n / groupsize)\<close>, that is
  \<open>hexwidth - 2 * n\<close> less one column for each group separator printed. This, and not
  \<open>hexwidth - 2 * n\<close>, is the width of the padding that \<^verbatim>\<open>%*s\<close> prints between
  the hex column and the two fixed spaces; so in both hex renderers the glyph column starts
  after \<open>11 + hexwidth\<close> columns on every line, whatever n is.
\<close>

theorem glyph_column_alignment:
  assumes "valid_settings cfg" and "linesize cfg + groupsize cfg < 2 ^ 31"
      and "1 \<le> length buf" and "length buf \<le> linesize cfg"
  shows "let n = length buf; g = groupsize cfg;
             seps = (n + g - 1) div g;
             p = hexwidth cfg - 2 * int n - int seps;
             hexpart = fst (hexloop_uncolored cfg 0 buf (hexwidth cfg - 2 * int n))
         in hexwidth cfg = 2 * int (linesize cfg) + int ((linesize cfg + g - 1) div g)
          \<and> 0 \<le> p
          \<and> snd (hexloop_uncolored cfg 0 buf (hexwidth cfg - 2 * int n)) = p
          \<and> columns hexpart = 2 * n + seps
          \<and> last hexpart = Out (hexdigit (unat (last buf) mod 16))
          \<and> last hexpart \<noteq> Out 32
          \<and> renderlineuncolored cfg buf pos
               = hex8 pos @ str '':'' @ hexpart @ replicate (nat p) (Out 32) @ str ''  ''
                 @ concat (map (\<lambda>ch. map Out (getbyterepresentation (useunicode cfg) ch)) buf)
                 @ [Out 10]
          \<and> int (columns (hex8 pos @ str '':'' @ hexpart @ replicate (nat p) (Out 32) @ str ''  ''))
               = 11 + hexwidth cfg
          \<and> (\<forall>c out c'. renderlinecolored cfg buf pos c = Some (out, c') \<longrightarrow>
                (\<exists>hexcol c1 glyphs.
                   hexloop_colored cfg 0 buf (hexwidth cfg - 2 * int n) c = Some (hexcol, p, c1)
                 \<and> columns hexcol = 2 * n + seps
                 \<and> last hexcol = Out (hexdigit (unat (last buf) mod 16))
                 \<and> glyphloop_colored cfg buf c1 = Some (glyphs, c')
                 \<and> out = Sgr0 # hex8 pos @ str '':'' @ hexcol @ Sgr0 # replicate (nat p) (Out 32)
                         @ str ''  '' @ glyphs @ [Sgr0, Out 10]
                 \<and> int (columns (Sgr0 # hex8 pos @ str '':'' @ hexcol @ Sgr0
                                   # replicate (nat p) (Out 32) @ str ''  ''))
                     = 11 + hexwidth cfg))"
proof -
  let ?n = "length buf" and ?g = "groupsize cfg"
  let ?seps = "(?n + ?g - 1) div ?g"
  let ?p = "hexwidth cfg - 2 * int ?n - int ?seps"
  let ?x0 = "hexwidth cfg - 2 * int ?n"
  let ?hexpart = "fst (hexloop_uncolored cfg 0 buf ?x0)"
  have g: "1 \<le> ?g" using assms(1) by (simp add: valid_settings_def)
  have ne: "buf \<noteq> []" using assms(3) by auto
  note w = pad_nonneg(1) [OF assms(1,2,4)] and p0 = pad_nonneg(2) [OF assms(1,2,4)]
  have padp: "pad ?p = replicate (nat ?p) (Out 32)" using p0 by (simp add: pad_def)
  have d16: "unat (last buf) mod 16 < 16" by simp
  note ns = hexdigit_not_space [OF d16]
  from hexloop_uncolored_pad [OF g, of 0 buf ?x0]
  have x: "snd (hexloop_uncolored cfg 0 buf ?x0) = ?p"
   and ci: "int (columns ?hexpart) = 2 * int ?n + int ?seps"
    using g by (simp_all del: of_nat_diff)
  have c: "columns ?hexpart = 2 * ?n + ?seps" using ci by linarith
  note la = hexloop_uncolored_last [OF ne, of cfg 0 ?x0, THEN conjunct2]
  have ls: "last ?hexpart \<noteq> Out 32" unfolding la using ns by simp
  have r: "renderlineuncolored cfg buf pos
            = hex8 pos @ str '':'' @ ?hexpart @ replicate (nat ?p) (Out 32) @ str ''  ''
              @ concat (map (\<lambda>ch. map Out (getbyterepresentation (useunicode cfg) ch)) buf)
              @ [Out 10]"
    using x padp by (simp add: renderlineuncolored_def split_beta Let_def)
  have cc: "int (columns (hex8 pos @ str '':'' @ ?hexpart @ replicate (nat ?p) (Out 32) @ str ''  ''))
                   = 11 + hexwidth cfg"
    using ci p0 by (simp add: columns_append columns_hex8 columns_str columns_replicate del: of_nat_diff)
  have col: "\<exists>hexcol c1 glyphs.
                   hexloop_colored cfg 0 buf ?x0 c = Some (hexcol, ?p, c1)
                 \<and> columns hexcol = 2 * ?n + ?seps
                 \<and> last hexcol = Out (hexdigit (unat (last buf) mod 16))
                 \<and> glyphloop_colored cfg buf c1 = Some (glyphs, c')
                 \<and> out = Sgr0 # hex8 pos @ str '':'' @ hexcol @ Sgr0 # replicate (nat ?p) (Out 32)
                         @ str ''  '' @ glyphs @ [Sgr0, Out 10]
                 \<and> int (columns (Sgr0 # hex8 pos @ str '':'' @ hexcol @ Sgr0
                                   # replicate (nat ?p) (Out 32) @ str ''  ''))
                     = 11 + hexwidth cfg"
    if r: "renderlinecolored cfg buf pos c = Some (out, c')" for c out c'
  proof -
    from r obtain hexcol x c1 glyphs where
        h: "hexloop_colored cfg 0 buf ?x0 c = Some (hexcol, x, c1)"
    and gl: "glyphloop_colored cfg buf c1 = Some (glyphs, c')"
    and o: "out = Sgr0 # hex8 pos @ str '':'' @ hexcol @ Sgr0 # pad x @ str ''  ''
                  @ glyphs @ [Sgr0, Out 10]"
      by (auto simp: renderlinecolored_def split: option.splits)
    from hexloop_colored_pad [OF g h]
    have x: "x = ?p" and ci: "int (columns hexcol) = 2 * int ?n + int ?seps"
      using g by (simp_all del: of_nat_diff)
    have c: "columns hexcol = 2 * ?n + ?seps" using ci by linarith
    note la = hexloop_colored_last [OF ne h, THEN conjunct2]
    have "int (columns (Sgr0 # hex8 pos @ str '':'' @ hexcol @ Sgr0 # replicate (nat ?p) (Out 32)
                                   @ str ''  ''))
                     = 11 + hexwidth cfg"
      using ci p0 by (simp add: columns_append columns_hex8 columns_str columns_replicate del: of_nat_diff)
    with o gl h c la show ?thesis unfolding x padp by blast
  qed
  show ?thesis
    unfolding Let_def using w p0 x c la ls r cc col by blast
qed

theorem glyph_column_alignment_witness:
  "valid_settings color_settings
   \<and> linesize color_settings + groupsize color_settings < 2 ^ 31
   \<and> 1 \<le> length [0x48, 0x65, 0x6C, 0x6C, 0x6F :: byte]
   \<and> length [0x48, 0x65, 0x6C, 0x6C, 0x6F :: byte] \<le> linesize color_settings
   \<and> hexwidth color_settings = 40
   \<and> hexloop_uncolored color_settings 0 [0x48, 0x65, 0x6C, 0x6C, 0x6F] (40 - 2 * 5)
       = (str '' 4865 6C6C 6F'', 27)
   \<and> renderlineuncolored color_settings [0x48, 0x65, 0x6C, 0x6C, 0x6F] 0
       = str ''00000000: 4865 6C6C 6F'' @ replicate 27 (Out 32) @ str ''  Hello'' @ [Out 10]
   \<and> columns (str ''00000000: 4865 6C6C 6F'' @ replicate 27 (Out 32) @ str ''  '') = 51
   \<and> (\<exists>out c' hexcol c1 glyphs.
         renderlinecolored color_settings [0x48, 0x65, 0x6C, 0x6C, 0x6F] 0 colors_init = Some (out, c')
       \<and> hexloop_colored color_settings 0 [0x48, 0x65, 0x6C, 0x6C, 0x6F] (40 - 2 * 5) colors_init
           = Some (hexcol, 27, c1)
       \<and> columns hexcol = 13
       \<and> out = Sgr0 # hex8 0 @ str '':'' @ hexcol @ Sgr0 # replicate 27 (Out 32)
                 @ str ''  '' @ glyphs @ [Sgr0, Out 10]
       \<and> int (columns (Sgr0 # hex8 0 @ str '':'' @ hexcol @ Sgr0 # replicate 27 (Out 32) @ str ''  ''))
           = 51)"
proof -
  let ?cfg = "color_settings"
  let ?buf = "[0x48, 0x65, 0x6C, 0x6C, 0x6F :: byte]"
  note v = valid_color_settings
  have o: "linesize ?cfg + groupsize ?cfg < 2 ^ 31" by (simp add: color_settings_def default_settings_def)
  have l: "1 \<le> length ?buf" "length ?buf \<le> linesize ?cfg"
    by (simp_all add: color_settings_def default_settings_def)
  have g: "concat (map (\<lambda>ch. map Out (getbyterepresentation (useunicode ?cfg) ch)) ?buf) = str ''Hello''"
    by (simp add: getbyterepresentation_def str_def color_settings_def default_settings_def)
  have s: "linesize ?cfg = 16" "groupsize ?cfg = 2" "hexwidth ?cfg = 40" "length ?buf = 5"
    by (simp_all add: color_settings_def default_settings_def)
  have p: "(40::int) - 2 * int 5 - int ((5 + 2 - 1) div 2) = 27" "nat 27 = 27"
          "2 * 5 + (5 + 2 - 1) div 2 = (13::nat)" "int 5 = 5"
    by simp_all
  have h: "fst (hexloop_uncolored ?cfg 0 ?buf (40 - 2 * 5)) = str '' 4865 6C6C 6F''"
    by (simp add: color_settings_def default_settings_def hex2_def hexdigit_def str_def)
  note t = glyph_column_alignment [OF v o l, of 0, unfolded Let_def s p g h]
  have 1: "hexloop_uncolored ?cfg 0 ?buf (40 - 2 * 5) = (str '' 4865 6C6C 6F'', 27)"
    using t [THEN conjunct2, THEN conjunct2, THEN conjunct1] h by (simp add: prod_eq_iff)
  have z: "hex8 0 = str ''00000000''" by (simp add: hex8_def hexdigit_def str_def)
  have 2: "renderlineuncolored ?cfg ?buf 0
       = str ''00000000: 4865 6C6C 6F'' @ replicate 27 (Out 32) @ str ''  Hello'' @ [Out 10]"
    using t [THEN conjunct2, THEN conjunct2, THEN conjunct2, THEN conjunct2, THEN conjunct2,
             THEN conjunct2, THEN conjunct1]
    by (simp add: z str_def)
  have 3: "columns (str ''00000000: 4865 6C6C 6F'' @ replicate 27 (Out 32) @ str ''  '') = 51"
    using t [THEN conjunct2, THEN conjunct2, THEN conjunct2, THEN conjunct2, THEN conjunct2,
             THEN conjunct2, THEN conjunct2, THEN conjunct1]
    by (simp add: z str_def)
  have hc: "hexoutput ?cfg" "colorize ?cfg" by (simp_all add: color_settings_def default_settings_def)
  obtain out c' where d: "dumpline ?cfg ?buf (length ?buf) 0 colors_init = Some (out, c')"
    using dumpline_roomy [OF roomy_colors_init] by blast
  then have r: "renderlinecolored ?cfg ?buf 0 colors_init = Some (out, c')"
    using hc by (simp add: dumpline_def)
  from t [THEN conjunct2, THEN conjunct2, THEN conjunct2, THEN conjunct2, THEN conjunct2,
          THEN conjunct2, THEN conjunct2, THEN conjunct2, rule_format, OF r]
  have 4: "\<exists>out c' hexcol c1 glyphs.
         renderlinecolored ?cfg ?buf 0 colors_init = Some (out, c')
       \<and> hexloop_colored ?cfg 0 ?buf (40 - 2 * 5) colors_init = Some (hexcol, 27, c1)
       \<and> columns hexcol = 13
       \<and> out = Sgr0 # hex8 0 @ str '':'' @ hexcol @ Sgr0 # replicate 27 (Out 32)
                 @ str ''  '' @ glyphs @ [Sgr0, Out 10]
       \<and> int (columns (Sgr0 # hex8 0 @ str '':'' @ hexcol @ Sgr0 # replicate 27 (Out 32) @ str ''  ''))
           = 51"
    using r by auto
  from v o l s(3) 1 2 3 4 show ?thesis by blast
qed

text \<open>
  The claim as stated fails: with the default settings (line size 16, group size 2, hex
  width 40) a full line of 16 bytes is followed by no padding at all before the two fixed
  spaces, while \<open>hexwidth - 2 * 16\<close> is 8.
\<close>

theorem padding_is_not_hexwidth_minus_2n:
  "renderlineuncolored (default_settings\<lparr>hexwidth := calc_hexwidth 16 2\<rparr>) [65, 65, 65, 65, 65, 65, 65, 65, 65, 65, 65, 65, 65, 65, 65, 65] 0
     = str ''00000000: 4141 4141 4141 4141 4141 4141 4141 4141'' @ pad 0 @ str ''  AAAAAAAAAAAAAAAA''
       @ [Out 10]
   \<and> pad 0 = []
   \<and> calc_hexwidth 16 2 - 2 * int (length [65, 65, 65, 65, 65, 65, 65, 65, 65, 65, 65, 65, 65, 65, 65, 65 :: byte]) = 8"
  by (simp add: calc_default renderlineuncolored_def default_settings_def hex8_def hex2_def
        hexdigit_def pad_def str_def getbyterepresentation_def)

text \<open>
  Why the amended statement asks for \<open>linesize + groupsize \<le> INT_MAX\<close>: with line size 16 and
  group size INT_MAX the sum wraps around, the hex width comes out as 32, and the padding
  counter of a full line reaches -1, which printf turns into one space; a full line and a
  line of five bytes then end their hex column at different offsets (34 and 32).
\<close>

lemma hexwidth_overflow_example:
  "calc_hexwidth 16 2147483647 = 32
   \<and> snd (hexloop_uncolored (default_settings\<lparr>groupsize := 2147483647, hexwidth := 32\<rparr>) 0
            [65, 65, 65, 65, 65, 65, 65, 65, 65, 65, 65, 65, 65, 65, 65, 65] (32 - 2 * 16)) = - 1
   \<and> pad (- 1) = [Out 32]
   \<and> snd (hexloop_uncolored (default_settings\<lparr>groupsize := 2147483647, hexwidth := 32\<rparr>) 0
            [65, 65, 65, 65, 65] (32 - 2 * 5)) = 21"
  by (simp add: calc_hexwidth_def int32_def signed_divide_int_def default_settings_def pad_def
        signed_take_bit_eq_take_bit_shift take_bit_eq_mod)

end
